theory Spec2Isabelle
  imports Main "HOL-Library.Word" "HOL-Library.Multiset"
begin

section \<open>The bucket table of \<^verbatim>\<open>LouiEriksson::Hashmap<Tk, Tv>\<close> (src/Hashmap.hpp)\<close>

text \<open>
  The class has two fields: \<^verbatim>\<open>m_Buckets\<close>, a vector of vectors of \<^verbatim>\<open>KeyValuePair\<close>, and
  \<^verbatim>\<open>m_Size\<close>, a \<^verbatim>\<open>size_t\<close> counter. A \<^verbatim>\<open>KeyValuePair\<close> is a pair \<open>(first, second)\<close>.
  The counter is a 64-bit word (\<^verbatim>\<open>size_t\<close> on LP64), so that \<^verbatim>\<open>m_Size++\<close> and
  \<^verbatim>\<open>m_Size -= 1\<close> wrap as they do in C++. Bucket counts, requested sizes and hash codes are
  natural numbers: the code only compares hash codes and takes their remainder by the bucket
  count, and a vector cannot hold so many buckets that doubling their number overflows.

  The template parameters enter through two functions that the operations take as their first
  arguments:
  \<^item> \<open>h\<close> is \<^verbatim>\<open>GetHashcode\<close>, that is \<^verbatim>\<open>std::hash<Tk>\<close>, taken to be total;
  \<^item> \<open>thr k v\<close> says that copy-constructing a \<^verbatim>\<open>KeyValuePair\<close> from \<open>k\<close> and \<open>v\<close> inside
    \<^verbatim>\<open>emplace_back\<close> raises an exception derived from \<^verbatim>\<open>std::exception\<close>, such as
    \<^verbatim>\<open>std::bad_alloc\<close> (the "exceptional condition in the key/value types' copy
    operations"). It is an argument of each call, so one call may fault where an earlier one did
    not. The fault-free behaviour of an operation is its value at \<open>no_throw\<close>. The copy
    assignment of a value in the overwriting branch of Assign and the copies of the bucket
    vector in Resize are taken not to throw.
  Moving a key or a value is modelled as copying it, which is exact for trivially copyable
  types such as the \<^verbatim>\<open>int\<close> keys of the test programs. For other types there is one place
  where it is not: when the overwriting branch of Assign has moved a value out of the copy that
  Resize took and a later re-insertion faults, the code restores the moved-from value and the
  embedding the value itself. That needs a table with two entries of one hash and a fault; no
  theorem below evaluates such a rollback. The table-wide lock has no counterpart:
  an operation is a function from the table before the call to the table after it.
\<close>

record ('k, 'v) hashmap =
  m_Buckets :: "('k \<times> 'v) list list"
  m_Size :: "64 word"

datatype exception = std_exception

datatype fault = DivisionByZero

abbreviation no_throw :: "'k \<Rightarrow> 'v \<Rightarrow> bool" where
  "no_throw \<equiv> (\<lambda>_ _. False)"

subsection \<open>The loops over one bucket\<close>

text \<open>
  \<^verbatim>\<open>for (auto& kvp : bucket) if (GetHashcode(kvp.first) == hash) { exists = true;
  kvp.second = _value; break; }\<close> of Assign: the flag and the bucket after the loop.
\<close>

fun assign_scan :: "('k \<Rightarrow> nat) \<Rightarrow> nat \<Rightarrow> 'v \<Rightarrow> ('k \<times> 'v) list \<Rightarrow> bool \<times> ('k \<times> 'v) list" where
  "assign_scan h hash v [] = (False, [])"
| "assign_scan h hash v (kvp # rest) =
     (if h (fst kvp) = hash then (True, (fst kvp, v) # rest)
      else (case assign_scan h hash v rest of (exists, rest') \<Rightarrow> (exists, kvp # rest')))"

text \<open>
  \<^verbatim>\<open>for (itr = bucket.begin(); itr < bucket.end(); itr++) if (GetHashcode(itr->first) == hash)
  { result = true; bucket.erase(itr); break; }\<close> of Remove.
\<close>

fun erase_scan :: "('k \<Rightarrow> nat) \<Rightarrow> nat \<Rightarrow> ('k \<times> 'v) list \<Rightarrow> bool \<times> ('k \<times> 'v) list" where
  "erase_scan h hash [] = (False, [])"
| "erase_scan h hash (kvp # rest) =
     (if h (fst kvp) = hash then (True, rest)
      else (case erase_scan h hash rest of (result, rest') \<Rightarrow> (result, kvp # rest')))"

text \<open>The read-only scan of ContainsKey, Add and Get: the first entry whose key has the hash.\<close>

definition find_hash :: "('k \<Rightarrow> nat) \<Rightarrow> nat \<Rightarrow> ('k \<times> 'v) list \<Rightarrow> ('k \<times> 'v) option" where
  "find_hash h hash bucket = find (\<lambda>kvp. h (fst kvp) = hash) bucket"

subsection \<open>Resize and the Assign it calls\<close>

text \<open>
  \<^verbatim>\<open>Resize\<close> copies the buckets, resets the counter, replaces the buckets by
  \<^verbatim>\<open>_newSize > 0 ? _newSize : 1\<close> empty ones and calls
  \<^verbatim>\<open>Assign(Tk&&, Tv&&, std::exception_ptr&)\<close> on every entry of the copy, bucket by bucket. It
  rethrows the exception an Assign reports; its handler restores \<^verbatim>\<open>m_Buckets\<close> from the copy and
  nothing else. That Assign in turn calls \<^verbatim>\<open>Resize(m_Buckets.size() * 2)\<close> when
  \<^verbatim>\<open>m_Size >= m_Buckets.size()\<close>, so the three functions are mutually recursive;
  \<open>reinsert\<close> is the loop of Resize over the entries of the copy, returning the table and the
  exception that stopped it, if any. Assign increments \<^verbatim>\<open>m_Size\<close> before \<^verbatim>\<open>emplace_back\<close>.
\<close>

function (domintros)
  Resize :: "('k \<Rightarrow> nat) \<Rightarrow> ('k \<Rightarrow> 'v \<Rightarrow> bool) \<Rightarrow> nat \<Rightarrow> ('k, 'v) hashmap \<Rightarrow> ('k, 'v) hashmap"
and
  Assign_ex :: "('k \<Rightarrow> nat) \<Rightarrow> ('k \<Rightarrow> 'v \<Rightarrow> bool) \<Rightarrow> 'k \<Rightarrow> 'v \<Rightarrow> ('k, 'v) hashmap
                 \<Rightarrow> ('k, 'v) hashmap \<times> exception option"
and
  reinsert :: "('k \<Rightarrow> nat) \<Rightarrow> ('k \<Rightarrow> 'v \<Rightarrow> bool) \<Rightarrow> ('k \<times> 'v) list \<Rightarrow> ('k, 'v) hashmap
                 \<Rightarrow> ('k, 'v) hashmap \<times> exception option"
where
  "Resize h thr newSize t =
     (case reinsert h thr (concat (m_Buckets t))
             (t\<lparr>m_Size := 0, m_Buckets := replicate (if newSize > 0 then newSize else 1) []\<rparr>) of
        (t', None) \<Rightarrow> t'
      | (t', Some e) \<Rightarrow> t'\<lparr>m_Buckets := m_Buckets t\<rparr>)"
| "Assign_ex h thr key val t =
     (let t1 = (if unat (m_Size t) \<ge> length (m_Buckets t)
                then Resize h thr (length (m_Buckets t) * 2) t else t);
          hash = h key;
          i = hash mod length (m_Buckets t1);
          bucket = m_Buckets t1 ! i
      in case assign_scan h hash val bucket of
           (True, bucket') \<Rightarrow> (t1\<lparr>m_Buckets := (m_Buckets t1)[i := bucket']\<rparr>, None)
         | (False, _) \<Rightarrow>
             if thr key val then (t1\<lparr>m_Size := m_Size t1 + 1\<rparr>, Some std_exception)
             else (t1\<lparr>m_Size := m_Size t1 + 1,
                      m_Buckets := (m_Buckets t1)[i := bucket @ [(key, val)]]\<rparr>, None))"
| "reinsert h thr [] t = (t, None)"
| "reinsert h thr (kvp # rest) t =
     (case Assign_ex h thr (fst kvp) (snd kvp) t of
        (t', None) \<Rightarrow> reinsert h thr rest t'
      | (t', Some e) \<Rightarrow> (t', Some e))"
  by pat_completeness auto

text \<open>
  Termination. An Assign called by the loop of Resize works on the table that is being rebuilt,
  which holds fewer entries than the copy; so a nested Resize has a smaller copy to go through.
  \<open>entry_count\<close> is the number of stored entries; no call lets
  it grow by more than the entries it is given.
\<close>

definition entry_count :: "('k, 'v) hashmap \<Rightarrow> nat" where
  "entry_count t = length (concat (m_Buckets t))"

termination Resize
proof (relation "measures
   [\<lambda>x. case x of Inl (h, thr, n, t) \<Rightarrow> entry_count t
               | Inr (Inl (h, thr, k, v, t)) \<Rightarrow> entry_count t + 1
               | Inr (Inr (h, thr, es, t)) \<Rightarrow> length es + entry_count t,
    \<lambda>x. case x of Inl _ \<Rightarrow> 3 | Inr (Inl _) \<Rightarrow> 1 | Inr (Inr _) \<Rightarrow> 2,
    \<lambda>x. case x of Inl _ \<Rightarrow> 0 | Inr (Inl _) \<Rightarrow> 0 | Inr (Inr (h, thr, es, t)) \<Rightarrow> length es]",
   goal_cases)
  case 1
  show ?case by simp
next
  case (2 h thr newSize t)
  show ?case by (simp add: entry_count_def)
next
  case (3 h thr key val t)
  show ?case by simp
next
  case (4 h thr kvp rest t)
  show ?case by simp
next
  case (5 h thr kvp rest t x y)
  have upd: "length (concat (bs[i := b'])) \<le> length (concat bs) + n"
    if "length b' \<le> length (bs ! i) + n" for bs :: "('a \<times> 'b) list list" and i b' n
    using that
  proof (induction bs arbitrary: i)
    case Nil
    then show ?case by simp
  next
    case (Cons b bs)
    then show ?case by (cases i) auto
  qed
  have scan: "length (snd (assign_scan g hash v b)) = length b"
    for g :: "'a \<Rightarrow> nat" and hash v and b :: "('a \<times> 'b) list"
    by (induction b) (auto split: prod.splits)
  have step: "length (concat (m_Buckets (fst (
        let hash = g key; i = hash mod length (m_Buckets tb); bucket = m_Buckets tb ! i
        in case assign_scan g hash val bucket of
             (True, bucket') \<Rightarrow> (tb\<lparr>m_Buckets := (m_Buckets tb)[i := bucket']\<rparr>, None)
           | (False, _) \<Rightarrow>
               if th key val then (tb\<lparr>m_Size := m_Size tb + 1\<rparr>, Some std_exception)
               else (tb\<lparr>m_Size := m_Size tb + 1,
                        m_Buckets := (m_Buckets tb)[i := bucket @ [(key, val)]]\<rparr>, None)))))
      \<le> Suc (length (concat (m_Buckets tb)))"
    for g :: "'a \<Rightarrow> nat" and th key val and tb :: "('a, 'b) hashmap"
  proof -
    let ?i = "g key mod length (m_Buckets tb)"
    obtain ex b' where s: "assign_scan g (g key) val (m_Buckets tb ! ?i) = (ex, b')" by force
    with scan [of g "g key" val "m_Buckets tb ! ?i"] have l: "length b' = length (m_Buckets tb ! ?i)"
      by simp
    have 1: "length (concat ((m_Buckets tb)[?i := b'])) \<le> length (concat (m_Buckets tb)) + 1"
      by (rule upd) (simp add: l)
    have 2: "length (concat ((m_Buckets tb)[?i := m_Buckets tb ! ?i @ [(key, val)]]))
               \<le> length (concat (m_Buckets tb)) + 1"
      by (rule upd) simp
    show ?thesis using s 1 2 by (cases ex) (simp_all add: Let_def)
  qed
  have "entry_count (fst (Assign_ex h thr (fst kvp) (snd kvp) t)) \<le> entry_count t + 1"
  proof (rule Resize_Assign_ex_reinsert.pinduct(2)
      [where P = "\<lambda>h thr n t. entry_count (Resize h thr n t) \<le> entry_count t"
         and Q = "\<lambda>h thr key val t. entry_count (fst (Assign_ex h thr key val t)) \<le> entry_count t + 1"
         and R = "\<lambda>h thr es t. entry_count (fst (reinsert h thr es t)) \<le> length es + entry_count t"],
      goal_cases)
    case 1
    show ?case by (rule 5(3))
  next
    case (2 h thr newSize t)
    then show ?case
      by (auto simp: Resize.psimps entry_count_def split: prod.splits option.splits)
  next
    case (3 h thr key val t)
    show ?case
    proof (cases "unat (m_Size t) \<ge> length (m_Buckets t)")
      case True
      with 3(2) have "entry_count (Resize h thr (length (m_Buckets t) * 2) t) \<le> entry_count t"
        by simp
      moreover have "entry_count (fst (Assign_ex h thr key val t))
           \<le> Suc (entry_count (Resize h thr (length (m_Buckets t) * 2) t))"
        using True step [where g = h and th = thr and key = key and val = val
            and tb = "Resize h thr (length (m_Buckets t) * 2) t"] 3(1)
        by (simp add: Assign_ex.psimps entry_count_def Let_def)
      ultimately show ?thesis by linarith
    next
      case False
      then show ?thesis
        using step [where g = h and th = thr and key = key and val = val and tb = t] 3(1) by (simp add: Assign_ex.psimps entry_count_def Let_def)
    qed
  next
    case (4 h thr t)
    then show ?case by (simp add: reinsert.psimps)
  next
    case (5 h thr kvp rest t)
    obtain t' e where a: "Assign_ex h thr (fst kvp) (snd kvp) t = (t', e)" by force
    with 5(2) have b: "entry_count t' \<le> entry_count t + 1" by simp
    show ?case
    proof (cases e)
      case None
      with 5(3) [of t' e] a
      have "entry_count (fst (reinsert h thr rest t')) \<le> length rest + entry_count t'"
        by simp
      with b a None 5(1) show ?thesis by (simp add: reinsert.psimps)
    next
      case (Some x)
      with b a 5(1) show ?thesis by (simp add: reinsert.psimps)
    qed
  qed
  with 5(1,3) have "entry_count x \<le> entry_count t + 1"
    by (metis fst_conv)
  then show ?case by auto
qed

subsection \<open>Construction\<close>

text \<open>
  \<^verbatim>\<open>Hashmap(const size_t& _capacity = 1U)\<close> resizes the bucket vector to \<^verbatim>\<open>_capacity\<close>, whatever
  it is. \<^verbatim>\<open>Hashmap(const std::initializer_list<KeyValuePair>& _items, const size_t& _capacity = 0U)\<close>
  takes \<^verbatim>\<open>max(_items.size(), 1)\<close> buckets when \<^verbatim>\<open>_capacity < 1\<close> and calls
  \<^verbatim>\<open>Assign(item.first, item.second)\<close> for every item in order.
\<close>

definition Hashmap :: "nat \<Rightarrow> ('k, 'v) hashmap" where
  "Hashmap capacity = \<lparr>m_Buckets = replicate capacity [], m_Size = 0\<rparr>"

subsection \<open>The public operations\<close>

text \<open>\<^verbatim>\<open>size()\<close> returns the counter; \<^verbatim>\<open>GetAll()\<close> copies the entries bucket by bucket.\<close>

definition size_of :: "('k, 'v) hashmap \<Rightarrow> 64 word" where
  "size_of t = m_Size t"

definition GetAll :: "('k, 'v) hashmap \<Rightarrow> ('k \<times> 'v) list" where
  "GetAll t = concat (m_Buckets t)"

text \<open>
  \<^verbatim>\<open>ContainsKey\<close> and \<^verbatim>\<open>Remove\<close> evaluate \<^verbatim>\<open>hash % m_Buckets.size()\<close> at once. With no
  bucket this is an integer division by zero, which is not a C++ exception and which the
  \<^verbatim>\<open>catch (...)\<close> of the function does not see: the model returns \<open>Inl DivisionByZero\<close>.
  \<^verbatim>\<open>m_Size -= static_cast<size_t>(result)\<close> is a subtraction of 64-bit words.
\<close>

definition ContainsKey :: "('k \<Rightarrow> nat) \<Rightarrow> 'k \<Rightarrow> ('k, 'v) hashmap \<Rightarrow> fault + bool" where
  "ContainsKey h key t =
     (if length (m_Buckets t) = 0 then Inl DivisionByZero
      else let hash = h key;
               i = hash mod length (m_Buckets t);
               bucket = m_Buckets t ! i
           in Inr (find_hash h hash bucket \<noteq> None))"

definition Remove :: "('k \<Rightarrow> nat) \<Rightarrow> 'k \<Rightarrow> ('k, 'v) hashmap \<Rightarrow> fault + (bool \<times> ('k, 'v) hashmap)" where
  "Remove h key t =
     (if length (m_Buckets t) = 0 then Inl DivisionByZero
      else let hash = h key;
               i = hash mod length (m_Buckets t);
               bucket = m_Buckets t ! i
           in case erase_scan h hash bucket of
                (result, bucket') \<Rightarrow>
                  Inr (result, t\<lparr>m_Buckets := (m_Buckets t)[i := bucket'],
                                 m_Size := m_Size t - (if result then 1 else 0)\<rparr>))"

text \<open>\<^verbatim>\<open>Get\<close> looks at the buckets only \<^verbatim>\<open>if (!m_Buckets.empty())\<close>.\<close>

definition Get :: "('k \<Rightarrow> nat) \<Rightarrow> 'k \<Rightarrow> ('k, 'v) hashmap \<Rightarrow> 'v option" where
  "Get h key t =
     (if m_Buckets t \<noteq> [] then
        (let hash = h key;
             i = hash mod length (m_Buckets t);
             bucket = m_Buckets t ! i
         in map_option snd (find_hash h hash bucket))
      else None)"

text \<open>
  \<^verbatim>\<open>Add(const Tk&, const Tv&)\<close>: the result with the table. As in Assign the counter is
  incremented before \<^verbatim>\<open>emplace_back\<close>, and the \<^verbatim>\<open>catch (...)\<close> leaves \<^verbatim>\<open>result\<close> as it is.
\<close>

definition Add :: "('k \<Rightarrow> nat) \<Rightarrow> ('k \<Rightarrow> 'v \<Rightarrow> bool) \<Rightarrow> 'k \<Rightarrow> 'v \<Rightarrow> ('k, 'v) hashmap
                     \<Rightarrow> bool \<times> ('k, 'v) hashmap" where
  "Add h thr key val t =
     (let t1 = (if unat (m_Size t) \<ge> length (m_Buckets t)
                then Resize h thr (length (m_Buckets t) * 2) t else t);
          hash = h key;
          i = hash mod length (m_Buckets t1);
          bucket = m_Buckets t1 ! i;
          result = (find_hash h hash bucket = None)
      in if result then
           (if thr key val then (result, t1\<lparr>m_Size := m_Size t1 + 1\<rparr>)
            else (result, t1\<lparr>m_Size := m_Size t1 + 1,
                             m_Buckets := (m_Buckets t1)[i := bucket @ [(key, val)]]\<rparr>))
         else (result, t1))"

text \<open>\<^verbatim>\<open>Assign(const Tk&, const Tv&)\<close>, the form that swallows the exception.\<close>

definition Assign :: "('k \<Rightarrow> nat) \<Rightarrow> ('k \<Rightarrow> 'v \<Rightarrow> bool) \<Rightarrow> 'k \<Rightarrow> 'v \<Rightarrow> ('k, 'v) hashmap
                        \<Rightarrow> ('k, 'v) hashmap" where
  "Assign h thr key val t =
     (let t1 = (if unat (m_Size t) \<ge> length (m_Buckets t)
                then Resize h thr (length (m_Buckets t) * 2) t else t);
          hash = h key;
          i = hash mod length (m_Buckets t1);
          bucket = m_Buckets t1 ! i
      in case assign_scan h hash val bucket of
           (True, bucket') \<Rightarrow> t1\<lparr>m_Buckets := (m_Buckets t1)[i := bucket']\<rparr>
         | (False, _) \<Rightarrow>
             if thr key val then t1\<lparr>m_Size := m_Size t1 + 1\<rparr>
             else t1\<lparr>m_Size := m_Size t1 + 1,
                     m_Buckets := (m_Buckets t1)[i := bucket @ [(key, val)]]\<rparr>)"

definition Hashmap_items :: "('k \<Rightarrow> nat) \<Rightarrow> ('k \<Rightarrow> 'v \<Rightarrow> bool) \<Rightarrow> ('k \<times> 'v) list \<Rightarrow> nat
                               \<Rightarrow> ('k, 'v) hashmap" where
  "Hashmap_items h thr items capacity =
     (let auto_capacity = (if capacity < 1 then max (length items) 1 else capacity)
      in fold (\<lambda>item t. Assign h thr (fst item) (snd item) t) items
           \<lparr>m_Buckets = replicate auto_capacity [], m_Size = 0\<rparr>)"

text \<open>
  \<^verbatim>\<open>Trim\<close>: the loop runs \<open>i\<close> from 1 to the last index and sets \<^verbatim>\<open>trimStart = i + 1\<close> at every
  non-empty bucket; then \<^verbatim>\<open>m_Buckets.erase(m_Buckets.begin() + trimStart)\<close>, the erase of
  \<^verbatim>\<open>std::vector\<close> that takes one position and removes the one element there.
\<close>

function trim_scan :: "('k \<times> 'v) list list \<Rightarrow> nat \<Rightarrow> nat \<Rightarrow> nat" where
  "trim_scan buckets i trimStart =
     (if i < length buckets
      then trim_scan buckets (i + 1) (if length (buckets ! i) \<noteq> 0 then i + 1 else trimStart)
      else trimStart)"
  by pat_completeness auto
termination
  by (relation "measure (\<lambda>(buckets, i, trimStart). length buckets - i)") auto

definition Trim :: "('k, 'v) hashmap \<Rightarrow> ('k, 'v) hashmap" where
  "Trim t =
     (let trimStart = trim_scan (m_Buckets t) 1 1
      in if trimStart < length (m_Buckets t)
         then t\<lparr>m_Buckets := take trimStart (m_Buckets t) @ drop (trimStart + 1) (m_Buckets t)\<rparr>
         else t)"

text \<open>\<^verbatim>\<open>Reserve\<close> compares the request with the counter, not with the number of buckets.\<close>

definition Reserve :: "('k \<Rightarrow> nat) \<Rightarrow> ('k \<Rightarrow> 'v \<Rightarrow> bool) \<Rightarrow> nat \<Rightarrow> ('k, 'v) hashmap
                         \<Rightarrow> ('k, 'v) hashmap" where
  "Reserve h thr newSize t = (if unat (m_Size t) < newSize then Resize h thr newSize t else t)"

text \<open>\<^verbatim>\<open>Clear\<close>: \<^verbatim>\<open>m_Buckets.clear(); m_Size = 0U;\<close>\<close>

definition Clear :: "('k, 'v) hashmap \<Rightarrow> ('k, 'v) hashmap" where
  "Clear t = t\<lparr>m_Buckets := [], m_Size := 0\<rparr>"

subsection \<open>The invariants of the data model\<close>

text \<open>
  The three invariants of the specification's data model: every entry lies in the bucket its
  hash addresses, no two entries have the same hash, and the counter is the number of entries
  (as a 64-bit word).
\<close>

definition addressed :: "('k \<Rightarrow> nat) \<Rightarrow> ('k \<times> 'v) list list \<Rightarrow> bool" where
  "addressed h bs = (\<forall>i < length bs. \<forall>kvp \<in> set (bs ! i). h (fst kvp) mod length bs = i)"

definition invar :: "('k \<Rightarrow> nat) \<Rightarrow> ('k, 'v) hashmap \<Rightarrow> bool" where
  "invar h t \<longleftrightarrow>
     addressed h (m_Buckets t) \<and>
     distinct (map (\<lambda>kvp. h (fst kvp)) (concat (m_Buckets t))) \<and>
     m_Size t = of_nat (length (concat (m_Buckets t)))"

text \<open>
  The second invariant alone, bucket by bucket: no bucket holds two entries with the same hash.
  Unlike \<open>invar\<close> it survives Trim and faulting copies.
\<close>

definition chains_distinct :: "('k \<Rightarrow> nat) \<Rightarrow> ('k, 'v) hashmap \<Rightarrow> bool" where
  "chains_distinct h t = (\<forall>bucket \<in> set (m_Buckets t). distinct (map (\<lambda>kvp. h (fst kvp)) bucket))"

subsection \<open>Tables reached without Clear\<close>

text \<open>
  The tables that the public interface reaches from a constructor that is given at least one
  bucket (the precondition its comment states: "Must be larger than 0"), by any sequence of
  Add, Assign, Remove, Reserve and Trim, with or without faults. Clear is the one operation left
  out.
\<close>

inductive reachable_without_Clear :: "('k \<Rightarrow> nat) \<Rightarrow> ('k, 'v) hashmap \<Rightarrow> bool" for h where
  init: "0 < capacity \<Longrightarrow> reachable_without_Clear h (Hashmap capacity)"
| init_items: "reachable_without_Clear h (Hashmap_items h thr items capacity)"
| add: "reachable_without_Clear h t \<Longrightarrow> reachable_without_Clear h (snd (Add h thr key val t))"
| assign: "reachable_without_Clear h t \<Longrightarrow> reachable_without_Clear h (Assign h thr key val t)"
| remove: "reachable_without_Clear h t \<Longrightarrow> Remove h key t = Inr (result, t') \<Longrightarrow>
             reachable_without_Clear h t'"
| reserve: "reachable_without_Clear h t \<Longrightarrow> reachable_without_Clear h (Reserve h thr newSize t)"
| trim: "reachable_without_Clear h t \<Longrightarrow> reachable_without_Clear h (Trim t)"

subsection \<open>Two names used in the proofs\<close>

text \<open>
  \<open>grow\<close> is the capacity check that opens Add and Assign; \<open>assign_step\<close> is the rest of
  \<^verbatim>\<open>Assign(Tk&&, Tv&&, std::exception_ptr&)\<close>. The lemmas \<open>Assign_ex_eq\<close>, \<open>Assign_eq\<close> and
  \<open>Add_eq\<close> below relate them to the operations.
\<close>

definition grow :: "('k \<Rightarrow> nat) \<Rightarrow> ('k \<Rightarrow> 'v \<Rightarrow> bool) \<Rightarrow> ('k, 'v) hashmap \<Rightarrow> ('k, 'v) hashmap" where
  "grow h thr t =
     (if unat (m_Size t) \<ge> length (m_Buckets t)
      then Resize h thr (length (m_Buckets t) * 2) t else t)"

definition assign_step :: "('k \<Rightarrow> nat) \<Rightarrow> ('k \<Rightarrow> 'v \<Rightarrow> bool) \<Rightarrow> 'k \<Rightarrow> 'v \<Rightarrow> ('k, 'v) hashmap
                 \<Rightarrow> ('k, 'v) hashmap \<times> exception option" where
  "assign_step h thr key val t1 =
     (let hash = h key;
          i = hash mod length (m_Buckets t1);
          bucket = m_Buckets t1 ! i
      in case assign_scan h hash val bucket of
           (True, bucket') \<Rightarrow> (t1\<lparr>m_Buckets := (m_Buckets t1)[i := bucket']\<rparr>, None)
         | (False, _) \<Rightarrow>
             if thr key val then (t1\<lparr>m_Size := m_Size t1 + 1\<rparr>, Some std_exception)
             else (t1\<lparr>m_Size := m_Size t1 + 1,
                      m_Buckets := (m_Buckets t1)[i := bucket @ [(key, val)]]\<rparr>, None))"

section \<open>Lemmas\<close>

declare Resize.simps [simp del] Assign_ex.simps [simp del]

subsection \<open>Buckets, scans and lookups\<close>

lemma mset_concat_update:
  "i < length bs \<Longrightarrow> mset (concat (bs[i := b'])) + mset (bs ! i) = mset (concat bs) + mset b'"
proof (induction bs arbitrary: i)
  case Nil
  then show ?case by simp
next
  case (Cons b bs)
  then show ?case by (cases i) (auto simp: ac_simps)
qed

lemma mset_concat_append:
  assumes "i < length bs"
  shows "mset (concat (bs[i := bs ! i @ [e]])) = add_mset e (mset (concat bs))"
  using mset_concat_update [OF assms, of "bs ! i @ [e]"] by simp

lemma bucket_subset: "i < length bs \<Longrightarrow> set (bs ! i) \<subseteq> set (concat bs)"
  by (auto intro!: bexI [of _ "bs ! i"])

lemma find_hash_None: "find_hash h x b = None \<longleftrightarrow> x \<notin> (\<lambda>kvp. h (fst kvp)) ` set b"
  by (force simp: find_hash_def find_None_iff)

lemma find_hash_Some_D: "find_hash h x b = Some e \<Longrightarrow> e \<in> set b \<and> h (fst e) = x"
  by (auto simp: find_hash_def find_Some_iff)

lemma find_hash_unique:
  assumes "distinct (map (\<lambda>kvp. h (fst kvp)) b)" "e \<in> set b" "h (fst e) = x"
  shows "find_hash h x b = Some e"
proof -
  from assms(2,3) have "find_hash h x b \<noteq> None" by (auto simp: find_hash_None)
  then obtain e' where e': "find_hash h x b = Some e'" by auto
  then have "e' \<in> set b" "h (fst e') = x" by (auto dest: find_hash_Some_D)
  with assms have "e' = e" by (metis (mono_tags, lifting) distinct_map inj_on_eq_iff)
  with e' show ?thesis by simp
qed

lemma addressed_find:
  assumes "addressed h bs" "distinct (map (\<lambda>kvp. h (fst kvp)) (concat bs))" "bs \<noteq> []"
  shows "find_hash h x (bs ! (x mod length bs)) = find_hash h x (concat bs)"
proof (cases "find_hash h x (concat bs)")
  case None
  then have "x \<notin> (\<lambda>kvp. h (fst kvp)) ` set (concat bs)" by (simp add: find_hash_None)
  moreover have "set (bs ! (x mod length bs)) \<subseteq> set (concat bs)"
    using assms(3) by (intro bucket_subset) simp
  ultimately have "find_hash h x (bs ! (x mod length bs)) = None"
    by (auto simp: find_hash_None)
  with None show ?thesis by simp
next
  case (Some e)
  then have e: "e \<in> set (concat bs)" "h (fst e) = x" by (auto dest: find_hash_Some_D)
  then obtain b where "b \<in> set bs" "e \<in> set b" by auto
  then obtain i where i: "i < length bs" "e \<in> set (bs ! i)" by (metis in_set_conv_nth)
  with assms(1) e have "i = x mod length bs" by (auto simp: addressed_def)
  with i have in_b: "e \<in> set (bs ! (x mod length bs))" by simp
  have "set (bs ! (x mod length bs)) \<subseteq> set (concat bs)"
    using assms(3) by (intro bucket_subset) simp
  then obtain e' where e': "find_hash h x (bs ! (x mod length bs)) = Some e'"
    using in_b e(2) by (cases "find_hash h x (bs ! (x mod length bs))") (auto simp: find_hash_None)
  then have "e' \<in> set (bs ! (x mod length bs))" "h (fst e') = x" by (auto dest: find_hash_Some_D)
  with \<open>set (bs ! (x mod length bs)) \<subseteq> set (concat bs)\<close> have "e' \<in> set (concat bs)" by auto
  with find_hash_unique [OF assms(2) this \<open>h (fst e') = x\<close>] Some e' show ?thesis by simp
qed

lemma Get_invar:
  assumes "invar h t"
  shows "Get h key t = map_option snd (find_hash h (h key) (GetAll t))"
proof (cases "m_Buckets t = []")
  case True
  then show ?thesis by (simp add: Get_def GetAll_def find_hash_def)
next
  case False
  with assms addressed_find [of h "m_Buckets t" "h key"] show ?thesis
    by (simp add: Get_def GetAll_def invar_def Let_def)
qed

lemma find_hash_mset:
  assumes "distinct (map (\<lambda>kvp. h (fst kvp)) xs)" "mset xs = mset ys"
  shows "find_hash h x xs = find_hash h x ys"
proof -
  from assms(2) have "mset (map (\<lambda>kvp. h (fst kvp)) xs) = mset (map (\<lambda>kvp. h (fst kvp)) ys)"
    by (metis mset_map)
  with assms(1) have dy: "distinct (map (\<lambda>kvp. h (fst kvp)) ys)"
    by (metis mset_eq_imp_distinct_iff)
  from assms(2) have s: "set xs = set ys" by (rule mset_eq_setD)
  show ?thesis
  proof (cases "find_hash h x xs")
    case None
    with s have "find_hash h x ys = None" by (simp add: find_hash_None)
    with None show ?thesis by simp
  next
    case (Some e)
    then have "e \<in> set ys" "h (fst e) = x" using s by (auto dest: find_hash_Some_D)
    with find_hash_unique [OF dy] Some show ?thesis by simp
  qed
qed

lemma Assign_ex_eq: "Assign_ex h thr key val t = assign_step h thr key val (grow h thr t)"
  by (simp add: Assign_ex.simps assign_step_def grow_def Let_def)

lemma Assign_eq: "Assign h thr key val t = fst (assign_step h thr key val (grow h thr t))"
  by (simp add: Assign_def assign_step_def grow_def Let_def split: prod.splits bool.splits)

lemma assign_scan_miss: "find_hash h x b = None \<Longrightarrow> assign_scan h x v b = (False, b)"
  by (induction b) (auto simp: find_hash_def split: if_splits)

lemma assign_scan_hit:
  "find_hash h x b = Some e \<Longrightarrow>
     \<exists>b'. assign_scan h x v b = (True, b') \<and> map fst b' = map fst b \<and>
          mset b' = add_mset (fst e, v) (mset b - {#e#})"
proof (induction b)
  case Nil
  then show ?case by (simp add: find_hash_def)
next
  case (Cons a b)
  show ?case
  proof (cases "h (fst a) = x")
    case True
    with Cons.prems show ?thesis by (simp add: find_hash_def)
  next
    case False
    with Cons.prems have f: "find_hash h x b = Some e" by (simp add: find_hash_def)
    from Cons.IH [OF this] obtain b' where b': "assign_scan h x v b = (True, b')"
      "map fst b' = map fst b" "mset b' = add_mset (fst e, v) (mset b - {#e#})" by blast
    from f have "e \<in># mset b" by (auto dest: find_hash_Some_D)
    with b' False show ?thesis by simp
  qed
qed

lemma erase_scan_miss: "find_hash h x b = None \<Longrightarrow> erase_scan h x b = (False, b)"
  by (induction b) (auto simp: find_hash_def split: if_splits)

lemma erase_scan_hit:
  "find_hash h x b = Some e \<Longrightarrow>
     \<exists>b'. erase_scan h x b = (True, b') \<and> mset b = add_mset e (mset b')"
proof (induction b)
  case Nil
  then show ?case by (simp add: find_hash_def)
next
  case (Cons a b)
  show ?case
  proof (cases "h (fst a) = x")
    case True
    with Cons.prems show ?thesis by (simp add: find_hash_def)
  next
    case False
    with Cons.prems have f: "find_hash h x b = Some e" by (simp add: find_hash_def)
    from Cons.IH [OF this] obtain b' where "erase_scan h x b = (True, b')"
      "mset b = add_mset e (mset b')" by blast
    with False show ?thesis by simp
  qed
qed

lemma addressed_update:
  assumes "addressed h bs" "i < length bs" "\<forall>kvp \<in> set b'. h (fst kvp) mod length bs = i"
  shows "addressed h (bs[i := b'])"
  unfolding addressed_def
proof (intro allI impI ballI)
  fix j kvp
  assume j: "j < length (bs[i := b'])" and k: "kvp \<in> set (bs[i := b'] ! j)"
  show "h (fst kvp) mod length (bs[i := b']) = j"
  proof (cases "j = i")
    case True
    with assms(2,3) k show ?thesis by simp
  next
    case False
    with assms(1) j k show ?thesis by (simp add: addressed_def)
  qed
qed

lemma addressed_bucket:
  "addressed h bs \<Longrightarrow> i < length bs \<Longrightarrow> kvp \<in> set (bs ! i) \<Longrightarrow> h (fst kvp) mod length bs = i"
  by (simp add: addressed_def)

lemma addressed_replicate: "addressed h (replicate n [])"
  by (simp add: addressed_def)

lemma distinct_hashes_mset:
  assumes "distinct (map f xs)" "mset ys = mset xs"
  shows "distinct (map f ys)"
proof -
  from assms(2) have "mset (map f ys) = mset (map f xs)" by (metis mset_map)
  with assms(1) show ?thesis by (metis mset_eq_imp_distinct_iff)
qed

text \<open>The step of Assign on a table with a bucket, when the hash is not stored.\<close>

lemma assign_step_miss:
  assumes inv: "invar h t" and ne: "m_Buckets t \<noteq> []"
    and miss: "h key \<notin> (\<lambda>kvp. h (fst kvp)) ` set (GetAll t)" and nt: "\<not> thr key val"
  shows "snd (assign_step h thr key val t) = None"
    and "invar h (fst (assign_step h thr key val t))"
    and "mset (GetAll (fst (assign_step h thr key val t))) = add_mset (key, val) (mset (GetAll t))"
    and "length (m_Buckets (fst (assign_step h thr key val t))) = length (m_Buckets t)"
proof -
  let ?bs = "m_Buckets t"
  let ?i = "h key mod length ?bs"
  let ?t' = "t\<lparr>m_Size := m_Size t + 1, m_Buckets := ?bs[?i := ?bs ! ?i @ [(key, val)]]\<rparr>"
  from ne have i: "?i < length ?bs" by simp
  have sub: "set (?bs ! ?i) \<subseteq> set (concat ?bs)" by (rule bucket_subset [OF i])
  with miss have "find_hash h (h key) (?bs ! ?i) = None"
    by (auto simp: find_hash_None GetAll_def)
  then have scan: "assign_scan h (h key) val (?bs ! ?i) = (False, ?bs ! ?i)"
    by (rule assign_scan_miss)
  with nt have eq: "assign_step h thr key val t = (?t', None)"
    by (simp add: assign_step_def Let_def)
  have m: "mset (concat (?bs[?i := ?bs ! ?i @ [(key, val)]])) = add_mset (key, val) (mset (concat ?bs))"
    by (rule mset_concat_append [OF i])
  have a: "addressed h (?bs[?i := ?bs ! ?i @ [(key, val)]])"
    using inv i by (intro addressed_update) (auto simp: invar_def dest: addressed_bucket)
  have d: "distinct (map (\<lambda>kvp. h (fst kvp)) (concat (?bs[?i := ?bs ! ?i @ [(key, val)]])))"
  proof (rule distinct_hashes_mset [where xs = "(key, val) # concat ?bs"])
    show "distinct (map (\<lambda>kvp. h (fst kvp)) ((key, val) # concat ?bs))"
      using inv miss by (simp add: invar_def GetAll_def)
    show "mset (concat (?bs[?i := ?bs ! ?i @ [(key, val)]])) = mset ((key, val) # concat ?bs)"
      using m by simp
  qed
  have l: "length (concat (?bs[?i := ?bs ! ?i @ [(key, val)]])) = Suc (length (concat ?bs))"
    using arg_cong [OF m, of size] by simp
  show "snd (assign_step h thr key val t) = None" by (simp add: eq)
  show "invar h (fst (assign_step h thr key val t))"
    using inv a d l by (simp add: eq invar_def)
  show "mset (GetAll (fst (assign_step h thr key val t))) = add_mset (key, val) (mset (GetAll t))"
    using m by (simp add: eq GetAll_def)
  show "length (m_Buckets (fst (assign_step h thr key val t))) = length (m_Buckets t)"
    by (simp add: eq)
qed

lemma mset_replace_in:
  assumes "M' + B = M + B'" "B' = add_mset n (B - {#e#})" "e \<in># B"
  shows "add_mset e M' = add_mset n M"
proof -
  from assms(3) have B: "B = add_mset e (B - {#e#})" by simp
  from assms(1,2) have "M' + add_mset e (B - {#e#}) = M + add_mset n (B - {#e#})"
    using B by simp
  then have "add_mset e M' + (B - {#e#}) = add_mset n M + (B - {#e#})" by simp
  then show ?thesis by (simp only: add_right_cancel)
qed

lemma assign_step_hit:
  assumes inv: "invar h t" and ne: "m_Buckets t \<noteq> []"
    and hit: "find_hash h (h key) (GetAll t) = Some e"
  shows "snd (assign_step h thr key val t) = None"
    and "invar h (fst (assign_step h thr key val t))"
    and "add_mset e (mset (GetAll (fst (assign_step h thr key val t))))
           = add_mset (fst e, val) (mset (GetAll t))"
    and "length (m_Buckets (fst (assign_step h thr key val t))) = length (m_Buckets t)"
    and "m_Size (fst (assign_step h thr key val t)) = m_Size t"
proof -
  let ?bs = "m_Buckets t"
  let ?i = "h key mod length ?bs"
  let ?hf = "\<lambda>kvp. h (fst kvp)"
  from ne have i: "?i < length ?bs" by simp
  from inv ne hit have "find_hash h (h key) (?bs ! ?i) = Some e"
    using addressed_find [of h ?bs "h key"] by (simp add: invar_def GetAll_def)
  note fb = this
  from assign_scan_hit [OF fb, of val] obtain b' where
    scan: "assign_scan h (h key) val (?bs ! ?i) = (True, b')" and
    keys: "map fst b' = map fst (?bs ! ?i)" and
    ms: "mset b' = add_mset (fst e, val) (mset (?bs ! ?i) - {#e#})" by blast
  have eq: "assign_step h thr key val t = (t\<lparr>m_Buckets := ?bs[?i := b']\<rparr>, None)"
    using scan by (simp add: assign_step_def Let_def)
  have "map ?hf b' = map h (map fst b')" by simp
  also have "\<dots> = map h (map fst (?bs ! ?i))" by (simp only: keys)
  also have "\<dots> = map ?hf (?bs ! ?i)" by simp
  finally have hk: "map ?hf b' = map ?hf (?bs ! ?i)" .
  have "map (map ?hf) (?bs[?i := b']) = map (map ?hf) ?bs"
    using hk i by (simp add: map_update list_update_same_conv)
  then have hc: "map ?hf (concat (?bs[?i := b'])) = map ?hf (concat ?bs)"
    by (simp add: map_concat)
  then have len: "length (concat (?bs[?i := b'])) = length (concat ?bs)"
    by (metis length_map)
  from hk have sh: "set (map ?hf b') = set (map ?hf (?bs ! ?i))" by simp
  have "\<forall>kvp \<in> set b'. h (fst kvp) mod length ?bs = ?i"
  proof
    fix kvp assume "kvp \<in> set b'"
    then have "h (fst kvp) \<in> set (map ?hf b')" by simp
    with sh have "h (fst kvp) \<in> set (map ?hf (?bs ! ?i))" by simp
    then obtain kvp' where "kvp' \<in> set (?bs ! ?i)" "h (fst kvp') = h (fst kvp)" by auto
    with inv i addressed_bucket [of h ?bs ?i kvp'] show "h (fst kvp) mod length ?bs = ?i"
      by (simp add: invar_def)
  qed
  with inv i have a: "addressed h (?bs[?i := b'])"
    by (intro addressed_update) (auto simp: invar_def)
  from fb have "e \<in># mset (?bs ! ?i)" by (auto dest: find_hash_Some_D)
  from mset_replace_in [OF mset_concat_update [OF i, of b'] ms this]
  have m: "add_mset e (mset (concat (?bs[?i := b']))) = add_mset (fst e, val) (mset (concat ?bs))" .
  show "snd (assign_step h thr key val t) = None" by (simp add: eq)
  show "invar h (fst (assign_step h thr key val t))"
    using inv a hc len by (simp add: eq invar_def)
  show "add_mset e (mset (GetAll (fst (assign_step h thr key val t))))
           = add_mset (fst e, val) (mset (GetAll t))"
    using m by (simp add: eq GetAll_def)
  show "length (m_Buckets (fst (assign_step h thr key val t))) = length (m_Buckets t)"
    by (simp add: eq)
  show "m_Size (fst (assign_step h thr key val t)) = m_Size t"
    by (simp add: eq)
qed

lemma assign_step_length:
  "length (m_Buckets (fst (assign_step h thr key val t))) = length (m_Buckets t)"
  by (simp add: assign_step_def Let_def split: prod.splits bool.splits)

lemma assign_step_no_throw: "snd (assign_step h no_throw key val t) = None"
  by (simp add: assign_step_def Let_def split: prod.splits bool.splits)

lemma reinsert_Some_nonempty: "snd (reinsert h thr es t) \<noteq> None \<Longrightarrow> es \<noteq> []"
  by (cases es) auto

lemma capacity_bounds:
  "min (length (m_Buckets t)) (max n 1) \<le> length (m_Buckets (Resize h thr n t))"
  "length (m_Buckets t) \<le> length (m_Buckets (fst (Assign_ex h thr key val t)))"
  "length (m_Buckets t) \<le> length (m_Buckets (fst (reinsert h thr es t)))"
proof (induction h thr n t and h thr key val t and h thr es t rule: Resize_Assign_ex_reinsert.induct)
  case (1 h thr newSize t)
  then show ?case by (auto simp: Resize.simps split: prod.splits option.splits)
next
  case (2 h thr key val t)
  show ?case
  proof (cases "unat (m_Size t) \<ge> length (m_Buckets t)")
    case True
    with 2 have "min (length (m_Buckets t)) (max (length (m_Buckets t) * 2) 1)
        \<le> length (m_Buckets (Resize h thr (length (m_Buckets t) * 2) t))" by simp
    then have "length (m_Buckets t) \<le> length (m_Buckets (grow h thr t))"
      using True by (simp add: grow_def)
    then show ?thesis by (simp only: Assign_ex_eq assign_step_length)
  next
    case False
    then show ?thesis by (simp only: Assign_ex_eq assign_step_length) (simp add: grow_def)
  qed
next
  case (3 h thr t)
  then show ?case by simp
next
  case (4 h thr kvp rest t)
  obtain t' e where a: "Assign_ex h thr (fst kvp) (snd kvp) t = (t', e)" by force
  with 4(1) have b: "length (m_Buckets t) \<le> length (m_Buckets t')" by simp
  show ?case
  proof (cases e)
    case None
    with 4(2) [of t' e] a have "length (m_Buckets t') \<le> length (m_Buckets (fst (reinsert h thr rest t')))"
      by simp
    with a b None show ?thesis by simp
  next
    case (Some x)
    with a b show ?thesis by simp
  qed
qed

lemma Resize_nonempty: "m_Buckets (Resize h thr n t) \<noteq> []"
proof (cases "snd (reinsert h thr (concat (m_Buckets t))
             (t\<lparr>m_Size := 0, m_Buckets := replicate (if n > 0 then n else 1) []\<rparr>))")
  case None
  from capacity_bounds(3) [of "t\<lparr>m_Size := 0, m_Buckets := replicate (if n > 0 then n else 1) []\<rparr>"
      h thr "concat (m_Buckets t)"]
  have "1 \<le> length (m_Buckets (fst (reinsert h thr (concat (m_Buckets t))
             (t\<lparr>m_Size := 0, m_Buckets := replicate (if n > 0 then n else 1) []\<rparr>))))"
    by (simp split: if_splits)
  with None show ?thesis by (auto simp: Resize.simps split: prod.splits)
next
  case (Some e)
  then have "snd (reinsert h thr (concat (m_Buckets t))
             (t\<lparr>m_Size := 0, m_Buckets := replicate (if n > 0 then n else 1) []\<rparr>)) \<noteq> None"
    by simp
  then have "concat (m_Buckets t) \<noteq> []" by (rule reinsert_Some_nonempty)
  then have "m_Buckets t \<noteq> []" by auto
  with Some show ?thesis by (auto simp: Resize.simps split: prod.splits)
qed

lemma grow_nonempty: "m_Buckets (grow h thr t) \<noteq> []"
  by (auto simp: grow_def Resize_nonempty)

lemma grow_capacity: "length (m_Buckets t) \<le> length (m_Buckets (grow h thr t))"
  using capacity_bounds(1) [of t "length (m_Buckets t) * 2" h thr] by (simp add: grow_def)

subsection \<open>Rebuilding keeps the invariants and the entries\<close>

lemma invar_fresh: "invar h (t\<lparr>m_Size := 0, m_Buckets := replicate n []\<rparr>)"
  by (simp add: invar_def addressed_replicate)

lemma GetAll_fresh: "GetAll (t\<lparr>m_Size := 0, m_Buckets := replicate n []\<rparr>) = []"
  by (simp add: GetAll_def)

lemma rebuild:
  "(\<forall>k v. \<not> thr k v) \<Longrightarrow> invar h t \<Longrightarrow>
     invar h (Resize h thr n t) \<and> mset (GetAll (Resize h thr n t)) = mset (GetAll t)"
  "(\<forall>k v. \<not> thr k v) \<Longrightarrow> invar h t \<Longrightarrow> h key \<notin> (\<lambda>kvp. h (fst kvp)) ` set (GetAll t) \<Longrightarrow>
     snd (Assign_ex h thr key val t) = None \<and> invar h (fst (Assign_ex h thr key val t)) \<and>
     mset (GetAll (fst (Assign_ex h thr key val t))) = add_mset (key, val) (mset (GetAll t))"
  "(\<forall>k v. \<not> thr k v) \<Longrightarrow> invar h t \<Longrightarrow> distinct (map (\<lambda>kvp. h (fst kvp)) (es @ GetAll t)) \<Longrightarrow>
     snd (reinsert h thr es t) = None \<and> invar h (fst (reinsert h thr es t)) \<and>
     mset (GetAll (fst (reinsert h thr es t))) = mset es + mset (GetAll t)"
proof (induction h thr n t and h thr key val t and h thr es t rule: Resize_Assign_ex_reinsert.induct)
  case (1 h thr newSize t)
  define n' where "n' = (if newSize > 0 then newSize else 1)"
  let ?fresh = "t\<lparr>m_Size := 0, m_Buckets := replicate n' []\<rparr>"
  have "distinct (map (\<lambda>kvp. h (fst kvp)) (concat (m_Buckets t) @ GetAll ?fresh))"
    using 1(3) by (simp add: GetAll_fresh invar_def)
  from 1(1) [folded n'_def, OF 1(2) invar_fresh this]
  have r: "snd (reinsert h thr (concat (m_Buckets t)) ?fresh) = None"
    "invar h (fst (reinsert h thr (concat (m_Buckets t)) ?fresh))"
    "mset (GetAll (fst (reinsert h thr (concat (m_Buckets t)) ?fresh))) = mset (concat (m_Buckets t))"
    by (simp_all add: GetAll_fresh)
  have "Resize h thr newSize t =
      (case reinsert h thr (concat (m_Buckets t)) ?fresh of
         (t', None) \<Rightarrow> t' | (t', Some e) \<Rightarrow> t'\<lparr>m_Buckets := m_Buckets t\<rparr>)"
    by (simp only: Resize.simps n'_def)
  with r(1) have "Resize h thr newSize t = fst (reinsert h thr (concat (m_Buckets t)) ?fresh)"
    by (cases "reinsert h thr (concat (m_Buckets t)) ?fresh") simp
  with r(2,3) show ?case by (simp add: GetAll_def)
next
  case (2 h thr key val t)
  have g: "invar h (grow h thr t) \<and> mset (GetAll (grow h thr t)) = mset (GetAll t)"
  proof (cases "unat (m_Size t) \<ge> length (m_Buckets t)")
    case True
    from 2(1) [OF True 2(2,3)] True show ?thesis by (simp add: grow_def)
  next
    case False
    with 2(3) show ?thesis by (simp add: grow_def)
  qed
  then have "set (GetAll (grow h thr t)) = set (GetAll t)" by (metis mset_eq_setD)
  with 2(4) have miss: "h key \<notin> (\<lambda>kvp. h (fst kvp)) ` set (GetAll (grow h thr t))" by simp
  from 2(2) have nt: "\<not> thr key val" by simp
  from g have gi: "invar h (grow h thr t)" by simp
  have gn: "m_Buckets (grow h thr t) \<noteq> []" by (rule grow_nonempty)
  from assign_step_miss [of h "grow h thr t" key thr val, OF gi gn miss nt] g
  show ?case by (simp add: Assign_ex_eq)
next
  case (3 h thr t)
  then show ?case by simp
next
  case (4 h thr kvp rest t)
  from 4(5) have miss: "h (fst kvp) \<notin> (\<lambda>kvp. h (fst kvp)) ` set (GetAll t)" by auto
  obtain t' e where a: "Assign_ex h thr (fst kvp) (snd kvp) t = (t', e)" by force
  from 4(1) [OF 4(3,4) miss] a have e: "e = None" and inv': "invar h t'"
    and m': "mset (GetAll t') = add_mset kvp (mset (GetAll t))" by simp_all
  have "distinct (map (\<lambda>kvp. h (fst kvp)) (rest @ GetAll t'))"
    by (rule distinct_hashes_mset [OF 4(5)]) (simp add: m')
  from 4(2) [OF a [symmetric] e 4(3) inv' this] a e m' show ?case by simp
qed

lemma Resize_invar:
  assumes "invar h t"
  shows "invar h (Resize h no_throw n t)" and "mset (GetAll (Resize h no_throw n t)) = mset (GetAll t)"
  using rebuild(1) [of no_throw h t n] assms by simp_all

lemma grow_invar:
  assumes "invar h t"
  shows "invar h (grow h no_throw t)" and "mset (GetAll (grow h no_throw t)) = mset (GetAll t)"
  using Resize_invar [OF assms] assms by (simp_all add: grow_def)

lemma invar_size: "invar h t \<Longrightarrow> m_Size t = of_nat (size (mset (GetAll t)))"
  by (simp add: invar_def GetAll_def)

lemma invar_distinct: "invar h t \<Longrightarrow> distinct (map (\<lambda>kvp. h (fst kvp)) (GetAll t))"
  by (simp add: invar_def GetAll_def)

lemma Get_mset:
  assumes "invar h t" "invar h t'" "mset (GetAll t') = mset (GetAll t)"
  shows "Get h key t' = Get h key t"
  using find_hash_mset [OF invar_distinct [OF assms(2)] assms(3)] assms(1,2)
  by (simp add: Get_invar)

lemma Get_entry:
  assumes "invar h t" "(k, v) \<in> set (GetAll t)"
  shows "Get h k t = Some v"
  using find_hash_unique [OF invar_distinct [OF assms(1)] assms(2)] assms(1)
  by (simp add: Get_invar)

lemma Add_eq:
  "Add h thr key val t =
     (if find_hash h (h key)
           (m_Buckets (grow h thr t) ! (h key mod length (m_Buckets (grow h thr t)))) = None
      then (True, fst (assign_step h thr key val (grow h thr t)))
      else (False, grow h thr t))"
  by (auto simp: Add_def assign_step_def grow_def Let_def assign_scan_miss)

subsection \<open>Add and Assign on a table that satisfies the invariants\<close>

lemma Get_hash_entry:
  assumes "invar h t" "(k', v) \<in> set (GetAll t)" "h k' = h k"
  shows "Get h k t = Some v"
proof -
  from assms(3) have "h (fst (k', v)) = h k" by simp
  from find_hash_unique [OF invar_distinct [OF assms(1)] assms(2) this] assms(1)
  show ?thesis by (simp add: Get_invar)
qed

lemma find_grow:
  assumes "invar h t"
  shows "find_hash h x (m_Buckets (grow h no_throw t) ! (x mod length (m_Buckets (grow h no_throw t))))
           = find_hash h x (GetAll t)"
proof -
  let ?g = "grow h no_throw t"
  from grow_invar [OF assms] have gi: "invar h ?g" and gm: "mset (GetAll ?g) = mset (GetAll t)"
    by simp_all
  have "find_hash h x (m_Buckets ?g ! (x mod length (m_Buckets ?g))) = find_hash h x (GetAll ?g)"
    using gi addressed_find [of h "m_Buckets ?g" x] grow_nonempty [of h no_throw t]
    by (simp add: invar_def GetAll_def)
  also have "\<dots> = find_hash h x (GetAll t)"
    by (rule find_hash_mset [OF invar_distinct [OF gi] gm])
  finally show ?thesis .
qed

lemma Add_new:
  assumes "invar h t" "find_hash h (h key) (GetAll t) = None"
  shows "fst (Add h no_throw key val t)"
    and "invar h (snd (Add h no_throw key val t))"
    and "mset (GetAll (snd (Add h no_throw key val t))) = add_mset (key, val) (mset (GetAll t))"
    and "m_Buckets (snd (Add h no_throw key val t)) \<noteq> []"
proof -
  let ?g = "grow h no_throw t"
  from grow_invar [OF assms(1)] have gi: "invar h ?g" and gm: "mset (GetAll ?g) = mset (GetAll t)"
    by simp_all
  have eq: "Add h no_throw key val t = (True, fst (assign_step h no_throw key val ?g))"
    using assms by (simp add: Add_eq find_grow)
  from gm have "set (GetAll ?g) = set (GetAll t)" by (rule mset_eq_setD)
  with assms(2) have miss: "h key \<notin> (\<lambda>kvp. h (fst kvp)) ` set (GetAll ?g)"
    by (simp add: find_hash_None)
  have gn: "m_Buckets ?g \<noteq> []" by (rule grow_nonempty)
  note st = assign_step_miss [of h ?g key no_throw val, OF gi gn miss]
  show "fst (Add h no_throw key val t)" by (simp add: eq)
  show "invar h (snd (Add h no_throw key val t))" using st(2) by (simp add: eq)
  show "mset (GetAll (snd (Add h no_throw key val t))) = add_mset (key, val) (mset (GetAll t))"
    using st(3) gm by (simp add: eq)
  from st(4) gn have "length (m_Buckets (fst (assign_step h no_throw key val ?g))) \<noteq> 0"
    by simp
  then show "m_Buckets (snd (Add h no_throw key val t)) \<noteq> []" by (simp add: eq)
qed

lemma Add_dup:
  assumes "invar h t" "find_hash h (h key) (GetAll t) = Some e"
  shows "Add h no_throw key val t = (False, grow h no_throw t)"
  using assms by (simp add: Add_eq find_grow)

lemma Assign_new:
  assumes "invar h t" "find_hash h (h key) (GetAll t) = None"
  shows "invar h (Assign h no_throw key val t)"
    and "mset (GetAll (Assign h no_throw key val t)) = add_mset (key, val) (mset (GetAll t))"
proof -
  let ?g = "grow h no_throw t"
  from grow_invar [OF assms(1)] have gi: "invar h ?g" and gm: "mset (GetAll ?g) = mset (GetAll t)"
    by simp_all
  from gm have "set (GetAll ?g) = set (GetAll t)" by (rule mset_eq_setD)
  with assms(2) have miss: "h key \<notin> (\<lambda>kvp. h (fst kvp)) ` set (GetAll ?g)"
    by (simp add: find_hash_None)
  have gn: "m_Buckets ?g \<noteq> []" by (rule grow_nonempty)
  note st = assign_step_miss [of h ?g key no_throw val, OF gi gn miss]
  show "invar h (Assign h no_throw key val t)" using st(2) by (simp add: Assign_eq)
  show "mset (GetAll (Assign h no_throw key val t)) = add_mset (key, val) (mset (GetAll t))"
    using st(3) gm by (simp add: Assign_eq)
qed

lemma Assign_hit:
  assumes "invar h t" "find_hash h (h key) (GetAll t) = Some e"
  shows "invar h (Assign h no_throw key val t)"
    and "mset (GetAll (Assign h no_throw key val t)) = add_mset (fst e, val) (mset (GetAll t) - {#e#})"
proof -
  let ?g = "grow h no_throw t"
  from grow_invar [OF assms(1)] have gi: "invar h ?g" and gm: "mset (GetAll ?g) = mset (GetAll t)"
    by simp_all
  have hit: "find_hash h (h key) (GetAll ?g) = Some e"
    using find_hash_mset [OF invar_distinct [OF gi] gm, of "h key"] assms(2) by simp
  have gn: "m_Buckets ?g \<noteq> []" by (rule grow_nonempty)
  note st = assign_step_hit [of h ?g key e no_throw val, OF gi gn hit]
  show "invar h (Assign h no_throw key val t)" using st(2) by (simp add: Assign_eq)
  from assms(2) have "e \<in># mset (GetAll t)" by (auto dest: find_hash_Some_D)
  moreover from st(3) gm
  have "add_mset e (mset (GetAll (Assign h no_throw key val t))) = add_mset (fst e, val) (mset (GetAll t))"
    by (simp add: Assign_eq)
  ultimately show "mset (GetAll (Assign h no_throw key val t))
      = add_mset (fst e, val) (mset (GetAll t) - {#e#})"
    by (metis add_mset_remove_trivial diff_union_swap2)
qed

lemma Assign_Get:
  assumes "invar h t"
  shows "invar h (Assign h no_throw key val t)" and "Get h key (Assign h no_throw key val t) = Some val"
proof -
  have "invar h (Assign h no_throw key val t) \<and>
        (\<exists>k'. (k', val) \<in> set (GetAll (Assign h no_throw key val t)) \<and> h k' = h key)"
  proof (cases "find_hash h (h key) (GetAll t)")
    case None
    from Assign_new [OF assms None, of val] have "invar h (Assign h no_throw key val t)"
      "(key, val) \<in># mset (GetAll (Assign h no_throw key val t))" by simp_all
    then show ?thesis by auto
  next
    case (Some e)
    from Assign_hit [OF assms Some, of val] have "invar h (Assign h no_throw key val t)"
      "(fst e, val) \<in># mset (GetAll (Assign h no_throw key val t))" by simp_all
    moreover from Some have "h (fst e) = h key" by (auto dest: find_hash_Some_D)
    ultimately show ?thesis by auto
  qed
  then show "invar h (Assign h no_throw key val t)"
    and "Get h key (Assign h no_throw key val t) = Some val"
    by (auto intro: Get_hash_entry)
qed

lemma invar_size_of: "invar h t \<Longrightarrow> size_of t = of_nat (size (mset (GetAll t)))"
  by (simp add: size_of_def invar_size)

subsection \<open>Remove\<close>

lemma erase_scan_distinct:
  assumes "distinct (map (\<lambda>kvp. h (fst kvp)) b)" "erase_scan h x b = (True, b')"
  shows "find_hash h x b' = None"
  using assms
proof (induction b arbitrary: b')
  case Nil
  then show ?case by simp
next
  case (Cons a b)
  show ?case
  proof (cases "h (fst a) = x")
    case True
    with Cons.prems show ?thesis by (force simp: find_hash_None)
  next
    case False
    obtain r b0 where e: "erase_scan h x b = (r, b0)" by force
    with Cons.prems False have "r" "b' = a # b0" by simp_all
    with Cons.IH [of b0] Cons.prems(1) e False show ?thesis by (simp add: find_hash_def)
  qed
qed

subsection \<open>The number of buckets\<close>

lemma Add_nonempty: "m_Buckets (snd (Add h thr key val t)) \<noteq> []"
proof -
  have "length (m_Buckets (snd (Add h thr key val t))) = length (m_Buckets (grow h thr t))"
    by (simp add: Add_eq assign_step_length)
  with grow_nonempty [of h thr t] show ?thesis by (metis length_0_conv)
qed

lemma Assign_nonempty: "m_Buckets (Assign h thr key val t) \<noteq> []"
proof -
  have "length (m_Buckets (Assign h thr key val t)) = length (m_Buckets (grow h thr t))"
    by (simp add: Assign_eq assign_step_length)
  with grow_nonempty [of h thr t] show ?thesis by (metis length_0_conv)
qed

lemma fold_Assign_nonempty:
  "m_Buckets t \<noteq> [] \<Longrightarrow>
     m_Buckets (fold (\<lambda>item t. Assign h thr (fst item) (snd item) t) items t) \<noteq> []"
  by (induction items arbitrary: t) (simp_all add: Assign_nonempty)

lemma Hashmap_items_nonempty: "m_Buckets (Hashmap_items h thr items capacity) \<noteq> []"
  unfolding Hashmap_items_def Let_def
  by (rule fold_Assign_nonempty) (auto simp: max_def)

lemma Remove_length: "Remove h key t = Inr (result, t') \<Longrightarrow> length (m_Buckets t') = length (m_Buckets t)"
  by (auto simp: Remove_def Let_def split: if_splits prod.splits)

lemma Reserve_nonempty: "m_Buckets t \<noteq> [] \<Longrightarrow> m_Buckets (Reserve h thr n t) \<noteq> []"
  by (simp add: Reserve_def Resize_nonempty)

lemma trim_scan_pos: "1 \<le> trimStart \<Longrightarrow> 1 \<le> trim_scan buckets i trimStart"
proof (induction buckets i trimStart rule: trim_scan.induct)
  case (1 buckets i trimStart)
  show ?case
  proof (cases "i < length buckets")
    case True
    with 1 show ?thesis by (subst trim_scan.simps) simp
  next
    case False
    with 1 show ?thesis by (subst trim_scan.simps) simp
  qed
qed

lemma Trim_nonempty: "m_Buckets t \<noteq> [] \<Longrightarrow> m_Buckets (Trim t) \<noteq> []"
  using trim_scan_pos [of 1 "m_Buckets t" 1]
  by (auto simp: Trim_def Let_def simp del: trim_scan.simps)

subsection \<open>The interface keeps the invariants\<close>

text \<open>
  The constructors build tables that satisfy the invariants, and Add, Assign, Remove, Reserve
  and Clear keep them when no copy throws. Trim does not: it changes the number of buckets
  without moving an entry.
\<close>

lemma invar_Hashmap: "invar h (Hashmap capacity)"
  by (simp add: invar_def Hashmap_def addressed_replicate)

lemma invar_Clear: "invar h (Clear t)"
  by (simp add: invar_def Clear_def addressed_def)

lemma invar_Add: "invar h t \<Longrightarrow> invar h (snd (Add h no_throw key val t))"
proof (cases "find_hash h (h key) (GetAll t)")
  case None
  assume "invar h t"
  from Add_new(2) [OF this None] show ?thesis .
next
  case (Some e)
  assume i: "invar h t"
  from Add_dup [OF i Some, of val] grow_invar(1) [OF i] show ?thesis by simp
qed

lemma invar_Reserve: "invar h t \<Longrightarrow> invar h (Reserve h no_throw n t)"
  by (simp add: Reserve_def Resize_invar)

lemma invar_fold_Assign:
  "invar h t \<Longrightarrow> invar h (fold (\<lambda>item t. Assign h no_throw (fst item) (snd item) t) items t)"
  by (induction items arbitrary: t) (simp_all add: Assign_Get)

lemma invar_Hashmap_items: "invar h (Hashmap_items h no_throw items capacity)"
  unfolding Hashmap_items_def Let_def
  by (rule invar_fold_Assign) (simp add: invar_def addressed_replicate)

lemma distinct_mset_remove:
  assumes "distinct (map f xs)" "mset xs = add_mset a (mset ys)"
  shows "distinct (map f ys)"
proof -
  from assms(2) have "mset (a # ys) = mset xs" by simp
  from distinct_hashes_mset [OF assms(1) this] show ?thesis by simp
qed

lemma invar_Remove:
  assumes "invar h t" "Remove h key t = Inr (result, t')"
  shows "invar h t'"
proof -
  let ?bs = "m_Buckets t"
  let ?i = "h key mod length ?bs"
  from assms(2) have ne: "?bs \<noteq> []" by (auto simp: Remove_def split: if_splits)
  then have i: "?i < length ?bs" by simp
  show ?thesis
  proof (cases "find_hash h (h key) (?bs ! ?i)")
    case None
    then have "erase_scan h (h key) (?bs ! ?i) = (False, ?bs ! ?i)" by (rule erase_scan_miss)
    with ne have "Remove h key t = Inr (False, t)" by (simp add: Remove_def Let_def)
    with assms(2) have "t' = t" by simp
    with assms(1) show ?thesis by simp
  next
    case (Some e)
    from erase_scan_hit [OF Some] obtain b' where
      scan: "erase_scan h (h key) (?bs ! ?i) = (True, b')" and
      ms: "mset (?bs ! ?i) = add_mset e (mset b')" by blast
    have "Remove h key t = Inr (True, t\<lparr>m_Buckets := ?bs[?i := b'], m_Size := m_Size t - 1\<rparr>)"
      using ne scan by (simp add: Remove_def Let_def)
    with assms(2) have t': "t' = t\<lparr>m_Buckets := ?bs[?i := b'], m_Size := m_Size t - 1\<rparr>"
      by simp
    from arg_cong [OF ms, of set_mset] have sub: "set b' \<subseteq> set (?bs ! ?i)" by auto
    from mset_concat_update [OF i, of b'] ms
    have m: "mset (concat ?bs) = add_mset e (mset (concat (?bs[?i := b'])))" by simp
    from assms(1) have ad: "addressed h ?bs"
      and di: "distinct (map (\<lambda>kvp. h (fst kvp)) (concat ?bs))" by (simp_all add: invar_def)
    have "\<forall>kvp \<in> set b'. h (fst kvp) mod length ?bs = ?i"
    proof
      fix kvp assume "kvp \<in> set b'"
      with sub have "kvp \<in> set (?bs ! ?i)" by blast
      then show "h (fst kvp) mod length ?bs = ?i" by (rule addressed_bucket [OF ad i])
    qed
    then have a: "addressed h (?bs[?i := b'])" by (rule addressed_update [OF ad i])
    have d: "distinct (map (\<lambda>kvp. h (fst kvp)) (concat (?bs[?i := b'])))"
      by (rule distinct_mset_remove [OF di m])
    from arg_cong [OF m, of size]
    have l: "length (concat ?bs) = Suc (length (concat (?bs[?i := b'])))" by simp
    from assms(1) l have "m_Size t - 1 = of_nat (length (concat (?bs[?i := b'])))"
      by (simp add: invar_def)
    with a d show ?thesis by (simp add: t' invar_def)
  qed
qed

lemma Add_capacity: "length (m_Buckets t) \<le> length (m_Buckets (snd (Add h thr key val t)))"
  using grow_capacity [of t h thr] by (simp add: Add_eq assign_step_length)

lemma Assign_capacity: "length (m_Buckets t) \<le> length (m_Buckets (Assign h thr key val t))"
  using grow_capacity [of t h thr] by (simp add: Assign_eq assign_step_length)

lemma Reserve_capacity:
  "min (length (m_Buckets t)) (max n 1) \<le> length (m_Buckets (Reserve h thr n t))"
  using capacity_bounds(1) [of t n h thr] by (cases "n = 0") (auto simp: Reserve_def max_def)

subsection \<open>Every operation keeps the buckets free of duplicate hashes\<close>

lemma chains_update:
  assumes "chains_distinct h t" "distinct (map (\<lambda>kvp. h (fst kvp)) b')"
    and "m_Buckets t' = (m_Buckets t)[i := b']"
  shows "chains_distinct h t'"
  using assms set_update_subset_insert [of "m_Buckets t" i b']
  by (auto simp: chains_distinct_def)

lemma chains_bucket:
  assumes "chains_distinct h t" "m_Buckets t \<noteq> []"
  shows "distinct (map (\<lambda>kvp. h (fst kvp)) (m_Buckets t ! (x mod length (m_Buckets t))))"
  using assms by (simp add: chains_distinct_def)

lemma assign_scan_keys: "map fst (snd (assign_scan h x v b)) = map fst b"
  by (induction b) (auto split: prod.splits)

lemma chains_assign_step:
  assumes "chains_distinct h t" "m_Buckets t \<noteq> []"
  shows "chains_distinct h (fst (assign_step h thr key val t))"
proof -
  let ?bs = "m_Buckets t"
  let ?i = "h key mod length ?bs"
  let ?hf = "\<lambda>kvp. h (fst kvp)"
  note d = chains_bucket [OF assms, of "h key"]
  show ?thesis
  proof (cases "find_hash h (h key) (?bs ! ?i)")
    case None
    then have scan: "assign_scan h (h key) val (?bs ! ?i) = (False, ?bs ! ?i)"
      by (rule assign_scan_miss)
    from None d have "distinct (map ?hf (?bs ! ?i @ [(key, val)]))"
      by (simp add: find_hash_None)
    note u = chains_update [OF assms(1) this]
    show ?thesis
    proof (cases "thr key val")
      case True
      with scan assms(1) show ?thesis
        by (simp add: assign_step_def Let_def chains_distinct_def)
    next
      case False
      with scan show ?thesis
        by (simp add: assign_step_def Let_def) (rule u, simp)
    qed
  next
    case (Some e)
    from assign_scan_hit [OF Some, of val] obtain b' where
      scan: "assign_scan h (h key) val (?bs ! ?i) = (True, b')" and
      keys: "map fst b' = map fst (?bs ! ?i)" by blast
    have "map ?hf b' = map h (map fst b')" by simp
    also have "\<dots> = map h (map fst (?bs ! ?i))" by (simp only: keys)
    also have "\<dots> = map ?hf (?bs ! ?i)" by simp
    finally have "distinct (map ?hf b')" using d by simp
    note u = chains_update [OF assms(1) this]
    from scan show ?thesis
      by (simp add: assign_step_def Let_def) (rule u, simp)
  qed
qed

lemma chains_rebuild:
  "chains_distinct h t \<Longrightarrow> chains_distinct h (Resize h thr n t)"
  "chains_distinct h t \<Longrightarrow> chains_distinct h (fst (Assign_ex h thr key val t))"
  "chains_distinct h t \<Longrightarrow> chains_distinct h (fst (reinsert h thr es t))"
proof (induction h thr n t and h thr key val t and h thr es t rule: Resize_Assign_ex_reinsert.induct)
  case (1 h thr newSize t)
  define n' where "n' = (if newSize > 0 then newSize else 1)"
  let ?fresh = "t\<lparr>m_Size := 0, m_Buckets := replicate n' []\<rparr>"
  have "chains_distinct h ?fresh" by (simp add: chains_distinct_def)
  from 1(1) [folded n'_def, OF this]
  have r: "chains_distinct h (fst (reinsert h thr (concat (m_Buckets t)) ?fresh))" .
  have R: "Resize h thr newSize t =
      (case reinsert h thr (concat (m_Buckets t)) ?fresh of
         (t', None) \<Rightarrow> t' | (t', Some e) \<Rightarrow> t'\<lparr>m_Buckets := m_Buckets t\<rparr>)"
    by (simp only: Resize.simps n'_def)
  obtain t' e where re: "reinsert h thr (concat (m_Buckets t)) ?fresh = (t', e)" by force
  show ?case
  proof (cases e)
    case None
    with R re r show ?thesis by simp
  next
    case (Some x)
    with R re 1(2) show ?thesis by (simp add: chains_distinct_def)
  qed
next
  case (2 h thr key val t)
  have "chains_distinct h (grow h thr t)"
    using 2 by (simp add: grow_def)
  from chains_assign_step [OF this grow_nonempty] show ?case by (simp add: Assign_ex_eq)
next
  case (3 h thr t)
  then show ?case by simp
next
  case (4 h thr kvp rest t)
  obtain t' e where a: "Assign_ex h thr (fst kvp) (snd kvp) t = (t', e)" by force
  with 4(1) [OF 4(3)] have c: "chains_distinct h t'" by simp
  show ?case
  proof (cases e)
    case None
    from 4(2) [OF a [symmetric] None c] a None show ?thesis by simp
  next
    case (Some x)
    with a c show ?thesis by simp
  qed
qed

lemma chains_grow: "chains_distinct h t \<Longrightarrow> chains_distinct h (grow h thr t)"
  by (simp add: grow_def chains_rebuild)

lemma erase_scan_subset: "set (snd (erase_scan h x b)) \<subseteq> set b"
  by (induction b) (auto split: prod.splits)

lemma erase_scan_sublist: "distinct (map f b) \<Longrightarrow> distinct (map f (snd (erase_scan h x b)))"
proof (induction b)
  case Nil
  then show ?case by simp
next
  case (Cons a b)
  from erase_scan_subset [of h x b] Cons show ?case
    by (auto split: prod.splits)
qed

lemma chains_interface:
  "chains_distinct h (Hashmap capacity)"
  "chains_distinct h (Clear t)"
  "chains_distinct h t \<Longrightarrow> chains_distinct h (snd (Add h thr key val t))"
  "chains_distinct h t \<Longrightarrow> chains_distinct h (Assign h thr key val t)"
  "chains_distinct h t \<Longrightarrow> Remove h key t = Inr (result, t') \<Longrightarrow> chains_distinct h t'"
  "chains_distinct h t \<Longrightarrow> chains_distinct h (Reserve h thr n t)"
  "chains_distinct h t \<Longrightarrow> chains_distinct h (Trim t)"
proof -
  show "chains_distinct h (Hashmap capacity)" by (simp add: chains_distinct_def Hashmap_def)
  show "chains_distinct h (Clear t)" by (simp add: chains_distinct_def Clear_def)
  show "chains_distinct h (Reserve h thr n t)" if "chains_distinct h t"
    using that chains_rebuild(1) [OF that, of thr n] by (simp add: Reserve_def)
  have step: "chains_distinct h (fst (assign_step h thr key val (grow h thr t)))"
    if "chains_distinct h t"
    by (rule chains_assign_step [OF chains_grow [OF that] grow_nonempty])
  show "chains_distinct h (Assign h thr key val t)" if "chains_distinct h t"
    using step [OF that] by (simp only: Assign_eq)
  show "chains_distinct h (snd (Add h thr key val t))" if "chains_distinct h t"
    using step [OF that] chains_grow [OF that, of thr] by (simp add: Add_eq)
  show "chains_distinct h (Trim t)" if "chains_distinct h t"
  proof -
    define n where "n = trim_scan (m_Buckets t) 1 1"
    have sub: "set (take n (m_Buckets t) @ drop (n + 1) (m_Buckets t)) \<subseteq> set (m_Buckets t)"
      using set_take_subset [of n "m_Buckets t"] set_drop_subset [of "n + 1" "m_Buckets t"]
      by simp
    have T: "Trim t = (if n < length (m_Buckets t)
        then t\<lparr>m_Buckets := take n (m_Buckets t) @ drop (n + 1) (m_Buckets t)\<rparr> else t)"
      by (simp only: Trim_def Let_def n_def)
    show ?thesis
    proof (cases "n < length (m_Buckets t)")
      case True
      with T have "m_Buckets (Trim t) = take n (m_Buckets t) @ drop (n + 1) (m_Buckets t)"
        by simp
      with sub that show ?thesis by (auto simp: chains_distinct_def subset_iff)
    next
      case False
      with T that show ?thesis by simp
    qed
  qed
  show "chains_distinct h t'" if c: "chains_distinct h t" and r: "Remove h key t = Inr (result, t')"
  proof -
    from r have ne: "m_Buckets t \<noteq> []" by (auto simp: Remove_def split: if_splits)
    let ?i = "h key mod length (m_Buckets t)"
    let ?b' = "snd (erase_scan h (h key) (m_Buckets t ! ?i))"
    obtain r0 b0 where es: "erase_scan h (h key) (m_Buckets t ! ?i) = (r0, b0)" by force
    then have "Remove h key t = Inr (r0, t\<lparr>m_Buckets := (m_Buckets t)[?i := b0],
          m_Size := m_Size t - (if r0 then 1 else 0)\<rparr>)"
      using ne by (simp add: Remove_def Let_def)
    with r have "t' = t\<lparr>m_Buckets := (m_Buckets t)[?i := b0],
          m_Size := m_Size t - (if r0 then 1 else 0)\<rparr>"
      by (metis Inr_inject Pair_inject)
    with es have t': "m_Buckets t' = (m_Buckets t)[?i := ?b']" by simp
    have "distinct (map (\<lambda>kvp. h (fst kvp)) ?b')"
      by (rule erase_scan_sublist [OF chains_bucket [OF c ne]])
    from chains_update [OF c this t'] show ?thesis .
  qed
qed

lemma chains_Hashmap_items: "chains_distinct h (Hashmap_items h thr items capacity)"
proof -
  have "chains_distinct h (fold (\<lambda>item t. Assign h thr (fst item) (snd item) t) items t)"
    if "chains_distinct h t" for t
    using that by (induction items arbitrary: t) (simp_all add: chains_interface(4))
  note F = this
  have "chains_distinct h (\<lparr>m_Buckets =
      replicate (if capacity < 1 then max (length items) 1 else capacity) [], m_Size = 0\<rparr> :: ('a, 'b) hashmap)"
    by (simp add: chains_distinct_def)
  from F [OF this] show ?thesis
    by (simp add: Hashmap_items_def Let_def)
qed

subsection \<open>What Trim keeps\<close>

text \<open>
  When the loop of Trim ends, every bucket from \<^verbatim>\<open>trimStart\<close> on is empty; so the bucket that
  Trim erases is empty, and the entries and the count stay as they are.
\<close>

lemma trim_scan_tail_empty:
  "(\<forall>j. trimStart \<le> j \<and> j < i \<longrightarrow> buckets ! j = []) \<Longrightarrow>
     (\<forall>j. trim_scan buckets i trimStart \<le> j \<and> j < length buckets \<longrightarrow> buckets ! j = [])"
proof (induction buckets i trimStart rule: trim_scan.induct)
  case (1 buckets i trimStart)
  show ?case
  proof (cases "i < length buckets")
    case False
    then have "trim_scan buckets i trimStart = trimStart"
      by (subst trim_scan.simps) (simp only: if_False)
    moreover from False 1(2) have "\<forall>j. trimStart \<le> j \<and> j < length buckets \<longrightarrow> buckets ! j = []"
      by auto
    ultimately show ?thesis by (simp only:)
  next
    case True
    let ?s = "if length (buckets ! i) \<noteq> 0 then i + 1 else trimStart"
    have "\<forall>j. ?s \<le> j \<and> j < i + 1 \<longrightarrow> buckets ! j = []"
    proof (intro allI impI)
      fix j
      assume j: "?s \<le> j \<and> j < i + 1"
      show "buckets ! j = []"
      proof (cases "length (buckets ! i) \<noteq> 0")
        case True
        with j have "i + 1 \<le> j" "j < i + 1" by simp_all
        then show ?thesis by linarith
      next
        case False
        with j have "trimStart \<le> j" "j < i \<or> j = i" by auto
        with False 1(2) show ?thesis by auto
      qed
    qed
    note ih = 1(1) [OF True this]
    have "trim_scan buckets i trimStart = trim_scan buckets (i + 1) ?s"
      using True by (subst trim_scan.simps) (simp only: if_True)
    then show ?thesis using ih by (simp only:)
  qed
qed

lemma Trim_keeps_entries: "GetAll (Trim t) = GetAll t \<and> size_of (Trim t) = size_of t"
proof -
  define n where "n = trim_scan (m_Buckets t) 1 1"
  have T: "Trim t = (if n < length (m_Buckets t)
      then t\<lparr>m_Buckets := take n (m_Buckets t) @ drop (n + 1) (m_Buckets t)\<rparr> else t)"
    by (simp only: Trim_def Let_def n_def)
  show ?thesis
  proof (cases "n < length (m_Buckets t)")
    case True
    have "\<forall>j. (1::nat) \<le> j \<and> j < 1 \<longrightarrow> m_Buckets t ! j = []" by simp
    from trim_scan_tail_empty [OF this] have "\<forall>j. n \<le> j \<and> j < length (m_Buckets t) \<longrightarrow> m_Buckets t ! j = []"
      by (simp only: n_def)
    with True have e: "m_Buckets t ! n = []" by blast
    from arg_cong [OF id_take_nth_drop [OF True], of concat] e
    have "concat (m_Buckets t) = concat (take n (m_Buckets t) @ drop (Suc n) (m_Buckets t))"
      by simp
    with True T show ?thesis by (simp add: GetAll_def size_of_def)
  next
    case False
    with T show ?thesis by simp
  qed
qed

subsection \<open>Add, Resize and Assign on a table that satisfies the invariants\<close>

text \<open>
  What the three operations do on a table that satisfies \<open>invar\<close>, with copies that do not throw:
  a second Add of a key returns false and changes neither the entries nor the count; a Resize
  keeps the entries, the count and every lookup; Assign replaces a value or adds an entry, and
  a second Assign keeps the count. The constructors, Add, Assign, Remove, Reserve and Clear keep
  \<open>invar\<close>; Trim does not, and the theorems of the last section show what follows a Trim.
\<close>

lemma invar_Add_twice:
  assumes "invar h t" and "Add h no_throw K v1 t = (True, t1)"
  shows "Get h K t1 = Some v1 \<and>
         ContainsKey h K t1 = Inr True \<and>
         fst (Add h no_throw K v2 t1) = False \<and>
         mset (GetAll (snd (Add h no_throw K v2 t1))) = mset (GetAll t1) \<and>
         size_of (snd (Add h no_throw K v2 t1)) = size_of t1 \<and>
         Get h K (snd (Add h no_throw K v2 t1)) = Some v1"
proof -
  have miss: "find_hash h (h K) (GetAll t) = None"
  proof (cases "find_hash h (h K) (GetAll t)")
    case None
    then show ?thesis .
  next
    case (Some e)
    from Add_dup [OF assms(1) Some, of v1] assms(2) show ?thesis by simp
  qed
  from Add_new [OF assms(1) miss, of v1] assms(2)
  have i1: "invar h t1" and m1: "mset (GetAll t1) = add_mset (K, v1) (mset (GetAll t))"
    and n1: "m_Buckets t1 \<noteq> []" by simp_all
  from m1 have in1: "(K, v1) \<in> set (GetAll t1)" by (metis mset_eq_setD set_mset_mset union_single_eq_member)
  from find_hash_unique [OF invar_distinct [OF i1] in1] have f1: "find_hash h (h K) (GetAll t1) = Some (K, v1)"
    by simp
  have g1: "Get h K t1 = Some v1" by (rule Get_hash_entry [OF i1 in1]) simp
  have c1: "ContainsKey h K t1 = Inr True"
    using n1 i1 f1 addressed_find [of h "m_Buckets t1" "h K"]
    by (simp add: ContainsKey_def Let_def invar_def GetAll_def)
  have a2: "Add h no_throw K v2 t1 = (False, grow h no_throw t1)" by (rule Add_dup [OF i1 f1])
  note g = grow_invar [OF i1]
  have "size_of (grow h no_throw t1) = size_of t1" using g i1 by (simp add: invar_size_of)
  moreover have "Get h K (grow h no_throw t1) = Some v1"
    using Get_mset [OF i1 g] g1 by simp
  ultimately show ?thesis using g1 c1 a2 g(2) by simp
qed

lemma invar_Resize_entries:
  assumes "invar h t"
  shows "invar h (Resize h no_throw n t) \<and>
         size_of (Resize h no_throw n t) = size_of t \<and>
         mset (GetAll (Resize h no_throw n t)) = mset (GetAll t) \<and>
         (\<forall>(k, v) \<in> set (GetAll t). Get h k (Resize h no_throw n t) = Some v)"
proof -
  note r = Resize_invar [OF assms, of n]
  from r(2) have s: "set (GetAll (Resize h no_throw n t)) = set (GetAll t)" by (rule mset_eq_setD)
  have "size_of (Resize h no_throw n t) = size_of t"
    using r assms by (simp add: invar_size_of)
  moreover have "\<forall>(k, v) \<in> set (GetAll t). Get h k (Resize h no_throw n t) = Some v"
    using s r(1) by (auto intro: Get_hash_entry)
  ultimately show ?thesis using r by simp
qed

lemma invar_Assign_upsert:
  assumes "invar h t"
  shows "(case find_hash h (h K) (GetAll t) of
            Some e \<Rightarrow>
              mset (GetAll (Assign h no_throw K v t)) = add_mset (fst e, v) (mset (GetAll t) - {#e#}) \<and>
              size_of (Assign h no_throw K v t) = size_of t
          | None \<Rightarrow>
              mset (GetAll (Assign h no_throw K v t)) = add_mset (K, v) (mset (GetAll t)) \<and>
              size_of (Assign h no_throw K v t) = size_of t + 1) \<and>
         invar h (Assign h no_throw K v t) \<and>
         Get h K (Assign h no_throw K v t) = Some v \<and>
         size_of (Assign h no_throw K v (Assign h no_throw K v t)) = size_of (Assign h no_throw K v t) \<and>
         Get h K (Assign h no_throw K v (Assign h no_throw K v t)) = Some v"
proof -
  have sz: "size_of (Assign h no_throw K v t') = size_of t'"
    if i: "invar h t'" and f: "find_hash h (h K) (GetAll t') = Some e" for t' e
  proof -
    from f have "e \<in># mset (GetAll t')" by (auto dest: find_hash_Some_D)
    then have "size (add_mset (fst e, v) (mset (GetAll t') - {#e#})) = size (mset (GetAll t'))"
      by (simp add: size_Diff_singleton) (metis Suc_pred length_pos_if_in_set f find_hash_Some_D)
    with Assign_hit [OF i f, of v] i show ?thesis
      by (simp add: invar_size_of del: size_mset)
  qed
  note a = Assign_Get [OF assms, of K v]
  have first: "(case find_hash h (h K) (GetAll t) of
            Some e \<Rightarrow>
              mset (GetAll (Assign h no_throw K v t)) = add_mset (fst e, v) (mset (GetAll t) - {#e#}) \<and>
              size_of (Assign h no_throw K v t) = size_of t
          | None \<Rightarrow>
              mset (GetAll (Assign h no_throw K v t)) = add_mset (K, v) (mset (GetAll t)) \<and>
              size_of (Assign h no_throw K v t) = size_of t + 1)"
  proof (cases "find_hash h (h K) (GetAll t)")
    case None
    with Assign_new [OF assms None, of v] assms show ?thesis by (simp add: invar_size_of)
  next
    case (Some e)
    with Assign_hit [OF assms Some, of v] sz [OF assms Some] show ?thesis by simp
  qed
  from a(2) a(1) obtain e where "find_hash h (h K) (GetAll (Assign h no_throw K v t)) = Some e"
    by (auto simp: Get_invar)
  from sz [OF a(1) this]
  have second: "size_of (Assign h no_throw K v (Assign h no_throw K v t)) = size_of (Assign h no_throw K v t)" .
  from first second a Assign_Get(2) [OF a(1), of K v] show ?thesis by simp
qed

section \<open>The claims\<close>

subsection \<open>C1: Resize and its rollback\<close>

text \<open>
  C1 says that Resize re-addresses every entry through Assign and that, when a re-insertion
  faults, the table is back at its snapshot with buckets and count both as before, so that the
  count is the same before and after every Resize. The handler of Resize restores
  \<^verbatim>\<open>m_Buckets\<close> only. The table that two Adds build from \<open>Hashmap 2\<close> has the keys 0 and 1 in
  two buckets and count 2; a Resize to 4 buckets (the one Reserve(4) calls) in which the copy of
  the entry of key 0 throws gives the two old buckets back with count 1: the counter was reset
  to 0 and incremented once before \<^verbatim>\<open>emplace_back\<close> threw. Without a fault the count and the
  entries are kept (\<open>Resize_invar\<close>).
\<close>

theorem Resize_rollback_loses_count:
  "Resize (\<lambda>k. k) (\<lambda>k v. k = 0) 4 \<lparr>m_Buckets = [[(0::nat, ''a'')], [(1, ''b'')]], m_Size = 2\<rparr>
     = \<lparr>m_Buckets = [[(0, ''a'')], [(1, ''b'')]], m_Size = 1\<rparr> \<and>
   Reserve (\<lambda>k. k) (\<lambda>k v. k = 0) 4 \<lparr>m_Buckets = [[(0::nat, ''a'')], [(1, ''b'')]], m_Size = 2\<rparr>
     = \<lparr>m_Buckets = [[(0, ''a'')], [(1, ''b'')]], m_Size = 1\<rparr> \<and>
   snd (Add (\<lambda>k. k) no_throw 1 ''b'' (snd (Add (\<lambda>k. k) no_throw (0::nat) ''a'' (Hashmap 2))))
     = \<lparr>m_Buckets = [[(0, ''a'')], [(1, ''b'')]], m_Size = 2\<rparr>"
  by code_simp

subsection \<open>C2: the capacity is never zero\<close>

text \<open>
  C2 says that every reachable table has at least one bucket and that Clear() leaves the count 0
  and a single empty bucket. Clear() empties the bucket vector: after it the table has no
  bucket at all.
\<close>

theorem Clear_leaves_no_bucket:
  "\<not> 1 \<le> length (m_Buckets (Clear (Hashmap 1 :: (nat, string) hashmap))) \<and>
   m_Buckets (Clear (Hashmap 1 :: (nat, string) hashmap)) \<noteq> [[]]"
  by (simp add: Clear_def)

text \<open>
  C2 as amended: every table reached from a constructor given a capacity of at least 1 by Add,
  Assign, Remove, Reserve and Trim has at least one bucket; Clear() sets the count to 0 and
  leaves zero buckets, and the next Add or Assign brings the capacity back to at least 1. Get
  and Resize are written for the table without buckets (the emptiness check of Get, the
  \<^verbatim>\<open>_newSize > 0U ? _newSize : 1U\<close> of Resize, reached with \<open>0 * 2\<close>).
\<close>

theorem capacity_at_least_one_without_Clear:
  "(reachable_without_Clear h t \<longrightarrow> 1 \<le> length (m_Buckets t)) \<and>
   size_of (Clear t') = 0 \<and> length (m_Buckets (Clear t')) = 0 \<and>
   1 \<le> length (m_Buckets (snd (Add h thr key val (Clear t')))) \<and>
   1 \<le> length (m_Buckets (Assign h thr key val (Clear t')))"
proof -
  have "m_Buckets t \<noteq> []" if "reachable_without_Clear h t"
    using that
  proof (induction rule: reachable_without_Clear.induct)
    case (init capacity)
    then show ?case by (simp add: Hashmap_def)
  next
    case (init_items thr items capacity)
    show ?case by (rule Hashmap_items_nonempty)
  next
    case (add t thr key val)
    show ?case by (rule Add_nonempty)
  next
    case (assign t thr key val)
    show ?case by (rule Assign_nonempty)
  next
    case (remove t key result t')
    from Remove_length [OF remove(2)] remove(3) show ?case by (metis length_0_conv)
  next
    case (reserve t thr newSize)
    then show ?case by (simp add: Reserve_nonempty)
  next
    case (trim t)
    then show ?case by (simp add: Trim_nonempty)
  qed
  moreover have "1 \<le> length (m_Buckets (snd (Add h thr key val (Clear t'))))"
    using Add_nonempty [of h thr key val "Clear t'"] by (simp add: Suc_le_eq)
  moreover have "1 \<le> length (m_Buckets (Assign h thr key val (Clear t')))"
    using Assign_nonempty [of h thr key val "Clear t'"] by (simp add: Suc_le_eq)
  ultimately show ?thesis by (simp add: Clear_def size_of_def Suc_le_eq)
qed

theorem capacity_at_least_one_without_Clear_witness:
  "reachable_without_Clear (\<lambda>k. k) (snd (Add (\<lambda>k. k) no_throw (1::nat) ''One'' (Hashmap 1))) \<and>
   1 \<le> length (m_Buckets (snd (Add (\<lambda>k. k) no_throw (1::nat) ''One'' (Hashmap 1))))"
proof -
  have r: "reachable_without_Clear (\<lambda>k. k) (snd (Add (\<lambda>k. k) no_throw (1::nat) ''One'' (Hashmap 1)))"
    by (intro reachable_without_Clear.add reachable_without_Clear.init) simp
  from capacity_at_least_one_without_Clear
    [of "\<lambda>k. k" "snd (Add (\<lambda>k. k) no_throw (1::nat) ''One'' (Hashmap 1))"
        "Hashmap 1" no_throw 1 "''One''"] r
  show ?thesis by simp
qed

subsection \<open>C3: the unguarded remainder of ContainsKey and Remove\<close>

text \<open>
  C3: ContainsKey and Remove take the hash modulo the bucket count without checking that there
  is a bucket, unlike Get; so on a table with an empty bucket vector, for every key, both
  evaluate \<^verbatim>\<open>hash % 0\<close>, while Get answers "absent". Clear() leaves such a table, so the
  division by zero is reachable through the public interface.
\<close>

theorem ContainsKey_Remove_divide_by_zero:
  "(m_Buckets t = [] \<longrightarrow>
      ContainsKey h key t = Inl DivisionByZero \<and> Remove h key t = Inl DivisionByZero \<and>
      Get h key t = None) \<and>
   m_Buckets (Clear t) = [] \<and>
   ContainsKey h key (Clear t) = Inl DivisionByZero \<and>
   Remove h key (Clear t) = Inl DivisionByZero \<and>
   Get h key (Clear t) = None"
  by (simp add: ContainsKey_def Remove_def Get_def Clear_def)

theorem ContainsKey_Remove_divide_by_zero_witness:
  "m_Buckets (Clear (Hashmap 1 :: (nat, string) hashmap)) = [] \<and>
   ContainsKey (\<lambda>k. k) 7 (Clear (Hashmap 1 :: (nat, string) hashmap)) = Inl DivisionByZero \<and>
   Remove (\<lambda>k. k) 7 (Clear (Hashmap 1 :: (nat, string) hashmap)) = Inl DivisionByZero \<and>
   Get (\<lambda>k. k) 7 (Clear (Hashmap 1 :: (nat, string) hashmap)) = None"
  using ContainsKey_Remove_divide_by_zero
    [of "Clear (Hashmap 1 :: (nat, string) hashmap)" "\<lambda>k. k" 7]
  by (simp add: Clear_def)

subsection \<open>C4: duplicate keys in the initial items\<close>

text \<open>
  C4 says that a table built from a sequence with two pairs of equal key hash keeps the first
  pair and drops the later one, so that Get yields the value of the first occurrence. The
  constructor inserts with Assign, which replaces the value: for the items (1, first),
  (1, second) Get yields the second value.
\<close>

theorem Hashmap_items_last_value_wins:
  "Get (\<lambda>k. k) 1 (Hashmap_items (\<lambda>k. k) no_throw [(1::nat, ''first''), (1, ''second'')] 0)
     = Some ''second''"
  by (simp add: Hashmap_items_def Assign_def Get_def find_hash_def Let_def numeral_2_eq_2)

subsection \<open>C5: Trim\<close>

text \<open>
  C5 says that Trim removes all the empty buckets after the last occupied one, so that the
  capacity becomes \<open>max (highest occupied index + 1) 1\<close>, and that it leaves the count and the
  reachability of every entry unchanged. Trim erases the single bucket at \<^verbatim>\<open>trimStart\<close>. On the
  table of 4 buckets that holds key 5 in bucket 1 it leaves 3 buckets, not 2; and since 5 mod 3
  is 2, Get no longer finds key 5. The entries and the count are kept (\<open>Trim_keeps_entries\<close>):
  what is lost is the addressing.
\<close>

theorem Trim_erases_one_bucket_and_loses_key:
  "snd (Add (\<lambda>k. k) no_throw (5::nat) ''five'' (Hashmap 4))
     = \<lparr>m_Buckets = [[], [(5, ''five'')], [], []], m_Size = 1\<rparr> \<and>
   Trim \<lparr>m_Buckets = [[], [(5::nat, ''five'')], [], []], m_Size = 1\<rparr>
     = \<lparr>m_Buckets = [[], [(5, ''five'')], []], m_Size = 1\<rparr> \<and>
   Get (\<lambda>k. k) 5 \<lparr>m_Buckets = [[], [(5::nat, ''five'')], [], []], m_Size = 1\<rparr> = Some ''five'' \<and>
   Get (\<lambda>k. k) 5 (Trim \<lparr>m_Buckets = [[], [(5::nat, ''five'')], [], []], m_Size = 1\<rparr>) = None"
  by code_simp

subsection \<open>C6: capacity under Reserve\<close>

text \<open>
  C6 says that no sequence of Add, Assign, Remove, Reserve and Resize calls decreases the number
  of buckets. Reserve compares the request with the count, not with the capacity: on a table of
  8 buckets holding 2 entries, Reserve(3) rebuilds the table with 3 buckets. Add, Assign and
  Remove never decrease the number of buckets (\<open>Add_capacity\<close>, \<open>Assign_capacity\<close>,
  \<open>Remove_length\<close>), and Reserve leaves at least the smaller of the old capacity and the
  request (\<open>Reserve_capacity\<close>).
\<close>

theorem Reserve_shrinks_capacity:
  "snd (Add (\<lambda>k. k) no_throw 2 ''b'' (snd (Add (\<lambda>k. k) no_throw (1::nat) ''a'' (Hashmap 8))))
     = \<lparr>m_Buckets = [[], [(1, ''a'')], [(2, ''b'')], [], [], [], [], []], m_Size = 2\<rparr> \<and>
   Reserve (\<lambda>k. k) no_throw 3
       \<lparr>m_Buckets = [[], [(1::nat, ''a'')], [(2, ''b'')], [], [], [], [], []], m_Size = 2\<rparr>
     = \<lparr>m_Buckets = [[], [(1, ''a'')], [(2, ''b'')]], m_Size = 2\<rparr>"
  by code_simp

subsection \<open>C7: Add never overwrites\<close>

text \<open>
  C7 says that after a successful \<open>Add K v1\<close> a further \<open>Add K v2\<close> finds the entry, inserts
  nothing, leaves the count and the stored value as they are and returns false, so that Get
  still yields \<open>v1\<close>. A Trim leaves entries in buckets that their hashes no longer address, and
  the claim fails behind it. With identity hashes: \<open>Hashmap 4\<close>, Add of key 6, Trim (3 buckets
  are left, key 6 sits in bucket 2 and is addressed to bucket 0), Add of key 1. Now
  \<open>Add 6 v1\<close> returns true and stores a second entry of key 6; \<open>Add 6 v2\<close> returns false, but
  the count has reached the capacity, so it resizes first, and the rebuild merges the two entries
  of key 6: the count goes from 3 to 2 and Get yields the old value, not \<open>v1\<close>.
\<close>

theorem Add_after_Trim_merges_entries:
  "Trim (snd (Add (\<lambda>k. k) no_throw 6 ''old'' (Hashmap 4)))
     = \<lparr>m_Buckets = [[], [], [(6::nat, ''old'')]], m_Size = 1\<rparr> \<and>
   snd (Add (\<lambda>k. k) no_throw 1 ''a'' \<lparr>m_Buckets = [[], [], [(6::nat, ''old'')]], m_Size = 1\<rparr>)
     = \<lparr>m_Buckets = [[], [(1::nat, ''a'')], [(6, ''old'')]], m_Size = 2\<rparr> \<and>
   Add (\<lambda>k. k) no_throw 6 ''v1'' \<lparr>m_Buckets = [[], [(1::nat, ''a'')], [(6, ''old'')]], m_Size = 2\<rparr>
     = (True, \<lparr>m_Buckets = [[(6::nat, ''v1'')], [(1, ''a'')], [(6, ''old'')]], m_Size = 3\<rparr>) \<and>
   Get (\<lambda>k. k) 6 \<lparr>m_Buckets = [[(6::nat, ''v1'')], [(1, ''a'')], [(6, ''old'')]], m_Size = 3\<rparr> = Some ''v1'' \<and>
   Add (\<lambda>k. k) no_throw 6 ''v2'' \<lparr>m_Buckets = [[(6::nat, ''v1'')], [(1, ''a'')], [(6, ''old'')]], m_Size = 3\<rparr>
     = (False, \<lparr>m_Buckets = [[(6::nat, ''old'')], [(1, ''a'')], [], [], [], []], m_Size = 2\<rparr>) \<and>
   size_of \<lparr>m_Buckets = [[(6::nat, ''v1'')], [(1, ''a'')], [(6, ''old'')]], m_Size = 3\<rparr> = 3 \<and>
   size_of \<lparr>m_Buckets = [[(6::nat, ''old'')], [(1, ''a'')], [], [], [], []], m_Size = 2\<rparr> = 2 \<and>
   Get (\<lambda>k. k) 6 \<lparr>m_Buckets = [[(6::nat, ''old'')], [(1, ''a'')], [], [], [], []], m_Size = 2\<rparr> = Some ''old''"
  by code_simp

subsection \<open>C8: a resize keeps every entry reachable\<close>

text \<open>
  C8 says that, when no fault occurs, every entry present before a resize that the load factor
  triggers is retrievable by its key afterwards, and that \<^verbatim>\<open>size()\<close> is unchanged. On the table
  that \<open>Hashmap 4\<close>, Add of key 6, Trim, Add of key 1 and a second Add of key 6 build (identity
  hashes, no fault), the count 3 has reached the capacity 3; the resize to 6 buckets merges the two
  entries of key 6, so that \<^verbatim>\<open>size()\<close> becomes 2 and the entry \<open>(6, v1)\<close> is lost: Get yields the
  value of the other one.
\<close>

theorem Resize_after_Trim_changes_size:
  "snd (Add (\<lambda>k. k) no_throw 6 ''v1'' (snd (Add (\<lambda>k. k) no_throw 1 ''a''
      (Trim (snd (Add (\<lambda>k. k) no_throw 6 ''old'' (Hashmap 4)))))))
     = \<lparr>m_Buckets = [[(6::nat, ''v1'')], [(1, ''a'')], [(6, ''old'')]], m_Size = 3\<rparr> \<and>
   length (m_Buckets \<lparr>m_Buckets = [[(6::nat, ''v1'')], [(1, ''a'')], [(6, ''old'')]], m_Size = 3\<rparr>)
     \<le> unat (m_Size \<lparr>m_Buckets = [[(6::nat, ''v1'')], [(1, ''a'')], [(6, ''old'')]], m_Size = 3\<rparr>) \<and>
   length (m_Buckets \<lparr>m_Buckets = [[(6::nat, ''v1'')], [(1, ''a'')], [(6, ''old'')]], m_Size = 3\<rparr>) * 2 = 6 \<and>
   GetAll \<lparr>m_Buckets = [[(6::nat, ''v1'')], [(1, ''a'')], [(6, ''old'')]], m_Size = 3\<rparr>
     = [(6, ''v1''), (1, ''a''), (6, ''old'')] \<and>
   size_of \<lparr>m_Buckets = [[(6::nat, ''v1'')], [(1, ''a'')], [(6, ''old'')]], m_Size = 3\<rparr> = 3 \<and>
   Resize (\<lambda>k. k) no_throw 6 \<lparr>m_Buckets = [[(6::nat, ''v1'')], [(1, ''a'')], [(6, ''old'')]], m_Size = 3\<rparr>
     = \<lparr>m_Buckets = [[(6::nat, ''old'')], [(1, ''a'')], [], [], [], []], m_Size = 2\<rparr> \<and>
   size_of (Resize (\<lambda>k. k) no_throw 6 \<lparr>m_Buckets = [[(6::nat, ''v1'')], [(1, ''a'')], [(6, ''old'')]], m_Size = 3\<rparr>) = 2 \<and>
   Get (\<lambda>k. k) 6 (Resize (\<lambda>k. k) no_throw 6 \<lparr>m_Buckets = [[(6::nat, ''v1'')], [(1, ''a'')], [(6, ''old'')]], m_Size = 3\<rparr>) = Some ''old''"
  by code_simp

subsection \<open>C9: Remove\<close>

text \<open>
  C9: on a table with at least one bucket, \<open>Remove K\<close> returns true exactly when an entry with
  the hash of \<open>K\<close> is found (when ContainsKey is true); it then erases exactly one element of
  the addressed bucket, touches no other bucket, decrements the count by one and keeps the
  number of buckets; it returns false and leaves the table unchanged when there is no such
  entry. After a Remove that returned true, ContainsKey is false and a further Remove returns
  false: this last part uses that no bucket holds two entries with the same hash, which every
  constructor establishes and every operation keeps (\<open>chains_interface\<close>,
  \<open>chains_Hashmap_items\<close>).
\<close>

theorem Remove_contract:
  assumes "m_Buckets t \<noteq> []" and "chains_distinct h t"
  shows "\<exists>r t'. Remove h K t = Inr (r, t') \<and>
           (r \<longleftrightarrow> ContainsKey h K t = Inr True) \<and>
           length (m_Buckets t') = length (m_Buckets t) \<and>
           (\<forall>j. j \<noteq> h K mod length (m_Buckets t) \<longrightarrow> m_Buckets t' ! j = m_Buckets t ! j) \<and>
           (r \<longrightarrow>
              (\<exists>e. h (fst e) = h K \<and>
                   mset (m_Buckets t ! (h K mod length (m_Buckets t)))
                     = add_mset e (mset (m_Buckets t' ! (h K mod length (m_Buckets t))))) \<and>
              size_of t' = size_of t - 1 \<and>
              ContainsKey h K t' = Inr False \<and>
              Remove h K t' = Inr (False, t')) \<and>
           (\<not> r \<longrightarrow> t' = t)"
proof -
  let ?bs = "m_Buckets t"
  let ?i = "h K mod length ?bs"
  from assms(1) have i: "?i < length ?bs" by simp
  show ?thesis
  proof (cases "find_hash h (h K) (?bs ! ?i)")
    case None
    then have "erase_scan h (h K) (?bs ! ?i) = (False, ?bs ! ?i)" by (rule erase_scan_miss)
    then have "Remove h K t = Inr (False, t)"
      using assms(1) by (simp add: Remove_def Let_def)
    moreover have "ContainsKey h K t = Inr False"
      using assms(1) None by (simp add: ContainsKey_def Let_def)
    ultimately show ?thesis by (intro exI [of _ False] exI [of _ t]) simp
  next
    case (Some e)
    from erase_scan_hit [OF Some] obtain b' where
      scan: "erase_scan h (h K) (?bs ! ?i) = (True, b')" and
      ms: "mset (?bs ! ?i) = add_mset e (mset b')" by blast
    let ?t' = "t\<lparr>m_Buckets := ?bs[?i := b'], m_Size := m_Size t - 1\<rparr>"
    have rem: "Remove h K t = Inr (True, ?t')"
      using assms(1) scan by (simp add: Remove_def Let_def)
    have con: "ContainsKey h K t = Inr True"
      using assms(1) Some by (simp add: ContainsKey_def Let_def)
    from Some have he: "h (fst e) = h K" by (auto dest: find_hash_Some_D)
    have gone: "find_hash h (h K) b' = None"
      by (rule erase_scan_distinct [OF chains_bucket [OF assms(2,1)] scan])
    have con': "ContainsKey h K ?t' = Inr False"
      using assms(1) i gone by (simp add: ContainsKey_def Let_def)
    from gone have "erase_scan h (h K) b' = (False, b')" by (rule erase_scan_miss)
    then have rem': "Remove h K ?t' = Inr (False, ?t')"
      using assms(1) i by (simp add: Remove_def Let_def)
    have "\<exists>e. h (fst e) = h K \<and> mset (?bs ! ?i) = add_mset e (mset (m_Buckets ?t' ! ?i))"
      using he ms i by (intro exI [of _ e]) simp
    then show ?thesis
      using rem con con' rem' i by (intro exI [of _ True] exI [of _ ?t']) (simp add: size_of_def)
  qed
qed

theorem Remove_contract_witness:
  "m_Buckets \<lparr>m_Buckets = [[(2::nat, ''Two'')], [(1, ''One'')]], m_Size = 2\<rparr> \<noteq> [] \<and>
   chains_distinct (\<lambda>k. k) \<lparr>m_Buckets = [[(2::nat, ''Two'')], [(1, ''One'')]], m_Size = 2\<rparr> \<and>
   Remove (\<lambda>k. k) 1 \<lparr>m_Buckets = [[(2::nat, ''Two'')], [(1, ''One'')]], m_Size = 2\<rparr>
     = Inr (True, \<lparr>m_Buckets = [[(2, ''Two'')], []], m_Size = 1\<rparr>) \<and>
   ContainsKey (\<lambda>k. k) 1 \<lparr>m_Buckets = [[(2::nat, ''Two'')], []], m_Size = 1\<rparr> = Inr False \<and>
   Remove (\<lambda>k. k) 1 \<lparr>m_Buckets = [[(2::nat, ''Two'')], []], m_Size = 1\<rparr>
     = Inr (False, \<lparr>m_Buckets = [[(2, ''Two'')], []], m_Size = 1\<rparr>)"
proof -
  let ?t = "\<lparr>m_Buckets = [[(2::nat, ''Two'')], [(1, ''One'')]], m_Size = 2\<rparr>"
  have n: "m_Buckets ?t \<noteq> []" by simp
  have d: "chains_distinct (\<lambda>k. k) ?t"
    by (simp add: chains_distinct_def)
  have r: "Remove (\<lambda>k. k) 1 ?t = Inr (True, \<lparr>m_Buckets = [[(2, ''Two'')], []], m_Size = 1\<rparr>)"
    by (simp add: Remove_def Let_def)
  from Remove_contract [of ?t "\<lambda>k. k" 1, OF n d] r d show ?thesis
    by auto
qed

subsection \<open>C10: Assign is an upsert\<close>

text \<open>
  C10 says that \<open>Assign K v\<close> replaces the value of the entry of the target bucket with the hash
  of \<open>K\<close>, or else appends an entry and increments the count, and that hence a second
  \<open>Assign K v\<close> leaves \<^verbatim>\<open>size()\<close> unchanged with Get yielding \<open>v\<close>. On the table that
  \<open>Hashmap 4\<close>, Add of key 6, Trim and Add of key 1 build (identity hashes, no fault), key 6 sits
  in bucket 2 and is addressed to bucket 0: \<open>Assign 6 v\<close> appends a second entry of key 6 and the
  count becomes 3; the second \<open>Assign 6 v\<close> resizes first, the rebuild merges the two entries,
  and \<^verbatim>\<open>size()\<close> becomes 2.
\<close>

theorem Assign_twice_after_Trim_changes_size:
  "snd (Add (\<lambda>k. k) no_throw 1 ''a'' (Trim (snd (Add (\<lambda>k. k) no_throw 6 ''old'' (Hashmap 4)))))
     = \<lparr>m_Buckets = [[], [(1::nat, ''a'')], [(6, ''old'')]], m_Size = 2\<rparr> \<and>
   Assign (\<lambda>k. k) no_throw 6 ''v'' \<lparr>m_Buckets = [[], [(1::nat, ''a'')], [(6, ''old'')]], m_Size = 2\<rparr>
     = \<lparr>m_Buckets = [[(6::nat, ''v'')], [(1, ''a'')], [(6, ''old'')]], m_Size = 3\<rparr> \<and>
   size_of (Assign (\<lambda>k. k) no_throw 6 ''v'' \<lparr>m_Buckets = [[], [(1::nat, ''a'')], [(6, ''old'')]], m_Size = 2\<rparr>) = 3 \<and>
   Assign (\<lambda>k. k) no_throw 6 ''v'' \<lparr>m_Buckets = [[(6::nat, ''v'')], [(1, ''a'')], [(6, ''old'')]], m_Size = 3\<rparr>
     = \<lparr>m_Buckets = [[(6::nat, ''v'')], [(1, ''a'')], [], [], [], []], m_Size = 2\<rparr> \<and>
   size_of (Assign (\<lambda>k. k) no_throw 6 ''v'' (Assign (\<lambda>k. k) no_throw 6 ''v'' \<lparr>m_Buckets = [[], [(1::nat, ''a'')], [(6, ''old'')]], m_Size = 2\<rparr>)) = 2 \<and>
   Get (\<lambda>k. k) 6 (Assign (\<lambda>k. k) no_throw 6 ''v'' (Assign (\<lambda>k. k) no_throw 6 ''v'' \<lparr>m_Buckets = [[], [(1::nat, ''a'')], [(6, ''old'')]], m_Size = 2\<rparr>)) = Some ''v''"
  by code_simp


end
